theory Spec2Isabelle
  imports Main "HOL-Library.Char_ord" "HOL-Library.List_Lexorder"
begin

section \<open>download\_cpap.py: errors and Python text primitives\<close>

text \<open>
  Every exception the modelled code can raise is a value. The four \<open>ValueError\<close>
  constructors are all Python's \<open>ValueError\<close>; they are kept apart by what raises them.
  \<^item> \<open>ValueError_int\<close>: \<open>int(s)\<close> on text that is no integer literal;
  \<^item> \<open>ValueError_unpack\<close>: \<open>a, b, c = xs\<close> where \<open>xs\<close> has not three items;
  \<^item> \<open>ValueError_date\<close>: \<open>datetime(...)\<close> with a field out of range;
  \<^item> \<open>ValueError_mask\<close>: the \<open>raise ValueError("Could not find MaskOn/MaskOff ...")\<close>
    of \<open>parse_str_edf\<close>;
  \<^item> \<open>ValueError_read\<close>: \<open>f.read(n)\<close> with \<open>n < -1\<close>;
  \<^item> \<open>StructError\<close>: \<open>struct.unpack\<close> on a buffer of the wrong size;
  \<^item> \<open>OverflowError\<close>: date arithmetic leaving the years 1..9999;
  \<^item> \<open>OSError\<close>: \<open>f.seek\<close> to a negative position;
  \<^item> \<open>NonAsciiText\<close>: a text field holding a byte above 127. Python decodes such a
    field as UTF-8; the model follows the code on ASCII fields only and stops here.
\<close>

datatype error =
    ValueError_int
  | ValueError_unpack
  | ValueError_date
  | ValueError_mask
  | ValueError_read
  | StructError
  | OverflowError
  | OSError
  | NonAsciiText

definition bindE :: "error + 'a \<Rightarrow> ('a \<Rightarrow> error + 'b) \<Rightarrow> error + 'b" where
  "bindE m k = (case m of Inl e \<Rightarrow> Inl e | Inr x \<Rightarrow> k x)"

fun mapE :: "('a \<Rightarrow> error + 'b) \<Rightarrow> 'a list \<Rightarrow> error + 'b list" where
  "mapE g [] = Inr []"
| "mapE g (x # xs) = bindE (g x) (\<lambda>y. bindE (mapE g xs) (\<lambda>ys. Inr (y # ys)))"

text \<open>
  A file is its bytes; a byte is a \<open>char\<close>. \<open>bytes.decode()\<close> of an ASCII field is
  the same characters.
\<close>

type_synonym bytes = string

definition decode :: "bytes \<Rightarrow> error + string" where
  "decode bs = (if list_all (\<lambda>c. (of_char c :: nat) < 128) bs then Inr bs else Inl NonAsciiText)"

text \<open>
  \<open>str.strip()\<close>: the characters below 256 for which \<open>str.isspace\<close> holds
  (tab to carriage return, the separators 28 to 31, space, and 133 and 160).
\<close>

definition is_space :: "char \<Rightarrow> bool" where
  "is_space c = (let n = (of_char c :: nat) in
     (9 \<le> n \<and> n \<le> 13) \<or> (28 \<le> n \<and> n \<le> 32) \<or> n = 133 \<or> n = 160)"

definition strip :: "string \<Rightarrow> string" where
  "strip s = rev (dropWhile is_space (rev (dropWhile is_space s)))"

definition is_digit :: "char \<Rightarrow> bool" where
  "is_digit c = (let n = (of_char c :: nat) in 48 \<le> n \<and> n \<le> 57)"

definition digit_val :: "char \<Rightarrow> nat" where
  "digit_val c = of_char c - 48"

text \<open>
  \<open>int(s)\<close> in base 10: surrounding whitespace, an optional sign, then digits, where
  a single underscore may stand between two digits. The whitespace \<open>int\<close> skips is
  narrower than that of \<open>str.strip()\<close>: tab to carriage return and space, and 133 and
  160; on the separators 28 to 31 it raises \<open>ValueError\<close>.
\<close>

definition is_int_space :: "char \<Rightarrow> bool" where
  "is_int_space c = (let n = (of_char c :: nat) in
     (9 \<le> n \<and> n \<le> 13) \<or> n = 32 \<or> n = 133 \<or> n = 160)"

definition int_strip :: "string \<Rightarrow> string" where
  "int_strip s = rev (dropWhile is_int_space (rev (dropWhile is_int_space s)))"

fun parse_digits :: "nat \<Rightarrow> string \<Rightarrow> nat option" where
  "parse_digits acc [] = Some acc"
| "parse_digits acc [c] = (if is_digit c then Some (acc * 10 + digit_val c) else None)"
| "parse_digits acc (c # d # cs) =
     (if is_digit c then parse_digits (acc * 10 + digit_val c) (d # cs)
      else if c = CHR ''_'' \<and> is_digit d then parse_digits (acc * 10 + digit_val d) cs
      else None)"

definition parse_nat :: "string \<Rightarrow> nat option" where
  "parse_nat s = (case s of [] \<Rightarrow> None
     | c # cs \<Rightarrow> if is_digit c then parse_digits (digit_val c) cs else None)"

definition py_int :: "string \<Rightarrow> error + int" where
  "py_int s = (case int_strip s of
       [] \<Rightarrow> Inl ValueError_int
     | c # cs \<Rightarrow>
         if c = CHR ''-'' then
           (case parse_nat cs of None \<Rightarrow> Inl ValueError_int | Some n \<Rightarrow> Inr (- int n))
         else if c = CHR ''+'' then
           (case parse_nat cs of None \<Rightarrow> Inl ValueError_int | Some n \<Rightarrow> Inr (int n))
         else
           (case parse_nat (c # cs) of None \<Rightarrow> Inl ValueError_int | Some n \<Rightarrow> Inr (int n)))"

text \<open>\<open>s.split(sep)\<close> for a one-character separator.\<close>

fun split_on :: "char \<Rightarrow> string \<Rightarrow> string list" where
  "split_on sep [] = [[]]"
| "split_on sep (c # cs) =
     (if c = sep then [] # split_on sep cs
      else (case split_on sep cs of [] \<Rightarrow> [[c]] | p # ps \<Rightarrow> (c # p) # ps))"

text \<open>Decimal digits of a natural number, and \<open>f"{n:02d}"\<close>, \<open>f"{n:04d}"\<close>.\<close>

function string_of_nat :: "nat \<Rightarrow> string" where
  "string_of_nat n =
     (if n < 10 then [char_of (48 + n)]
      else string_of_nat (n div 10) @ [char_of (48 + n mod 10)])"
  by pat_completeness auto
termination
  by (relation "measure id") auto

declare string_of_nat.simps [simp del]

definition zfill :: "nat \<Rightarrow> string \<Rightarrow> string" where
  "zfill w s = replicate (w - length s) CHR ''0'' @ s"

definition fmt_d :: "nat \<Rightarrow> int \<Rightarrow> string" where
  "fmt_d w n =
     (if n < 0 then CHR ''-'' # zfill (w - 1) (string_of_nat (nat (- n)))
      else zfill w (string_of_nat (nat n)))"

section \<open>Python's datetime\<close>

text \<open>
  The proleptic Gregorian calendar of Python's \<open>datetime\<close> module: a date is the
  ordinal of its day, day 1 being 0001-01-01. Microseconds are always 0 in this program
  and are left out.
\<close>

record datetime =
  dt_year :: int
  dt_month :: int
  dt_day :: int
  dt_hour :: int
  dt_minute :: int
  dt_second :: int

definition is_leap :: "int \<Rightarrow> bool" where
  "is_leap y = (y mod 4 = 0 \<and> (y mod 100 \<noteq> 0 \<or> y mod 400 = 0))"

definition days_before_year :: "int \<Rightarrow> int" where
  "days_before_year year = (let y = year - 1 in y * 365 + y div 4 - y div 100 + y div 400)"

definition DAYS_IN_MONTH :: "int list" where
  "DAYS_IN_MONTH = [-1, 31, 28, 31, 30, 31, 30, 31, 31, 30, 31, 30, 31]"

definition DAYS_BEFORE_MONTH :: "int list" where
  "DAYS_BEFORE_MONTH = [-1, 0, 31, 59, 90, 120, 151, 181, 212, 243, 273, 304, 334]"

definition days_in_month :: "int \<Rightarrow> int \<Rightarrow> int" where
  "days_in_month y m = (if m = 2 \<and> is_leap y then 29 else DAYS_IN_MONTH ! nat m)"

definition days_before_month :: "int \<Rightarrow> int \<Rightarrow> int" where
  "days_before_month y m = DAYS_BEFORE_MONTH ! nat m + (if m > 2 \<and> is_leap y then 1 else 0)"

definition ymd2ord :: "int \<Rightarrow> int \<Rightarrow> int \<Rightarrow> int" where
  "ymd2ord y m d = days_before_year y + days_before_month y m + d"

definition ord2ymd :: "int \<Rightarrow> int \<times> int \<times> int" where
  "ord2ymd ordinal =
     (let n0 = ordinal - 1;
          n400 = n0 div 146097; n1 = n0 mod 146097;
          n100 = n1 div 36524; n2 = n1 mod 36524;
          n4 = n2 div 1461; n3 = n2 mod 1461;
          n1y = n3 div 365; n = n3 mod 365;
          year = n400 * 400 + 1 + n100 * 100 + n4 * 4 + n1y
      in if n1y = 4 \<or> n100 = 4 then (year - 1, 12, 31)
         else
           let leapyear = (n1y = 3 \<and> (n4 \<noteq> 24 \<or> n100 = 3));
               month = (n + 50) div 32;
               preceding = DAYS_BEFORE_MONTH ! nat month + (if month > 2 \<and> leapyear then 1 else 0)
           in if preceding > n then
                let month' = month - 1;
                    preceding' = preceding
                      - (DAYS_IN_MONTH ! nat month' + (if month' = 2 \<and> leapyear then 1 else 0))
                in (year, month', n - preceding' + 1)
              else (year, month, n - preceding + 1))"

text \<open>\<open>datetime(year, month, day, hour, minute, second)\<close>: every field is checked.\<close>

definition datetime_new :: "int \<Rightarrow> int \<Rightarrow> int \<Rightarrow> int \<Rightarrow> int \<Rightarrow> int \<Rightarrow> error + datetime" where
  "datetime_new y m d hh mi ss =
     (if 1 \<le> y \<and> y \<le> 9999 \<and> 1 \<le> m \<and> m \<le> 12 \<and> 1 \<le> d \<and> d \<le> days_in_month y m
         \<and> 0 \<le> hh \<and> hh \<le> 23 \<and> 0 \<le> mi \<and> mi \<le> 59 \<and> 0 \<le> ss \<and> ss \<le> 59
      then Inr \<lparr>dt_year = y, dt_month = m, dt_day = d,
                dt_hour = hh, dt_minute = mi, dt_second = ss\<rparr>
      else Inl ValueError_date)"

text \<open>
  \<open>dt + timedelta(days=days, seconds=secs)\<close>: the sum is normalised to whole days and
  seconds of the day; a day outside 0001-01-01 .. 9999-12-31 (ordinal 3652059) raises
  \<open>OverflowError\<close>. \<open>timedelta(minutes=m)\<close> is \<open>secs = m * 60\<close>.
\<close>

definition datetime_add :: "datetime \<Rightarrow> int \<Rightarrow> int \<Rightarrow> error + datetime" where
  "datetime_add dt days secs =
     (let t = dt_hour dt * 3600 + dt_minute dt * 60 + dt_second dt + secs;
          n = ymd2ord (dt_year dt) (dt_month dt) (dt_day dt) + days + t div 86400;
          r = t mod 86400
      in if 0 < n \<and> n \<le> 3652059 then
           (case ord2ymd n of (y, m, d) \<Rightarrow>
              Inr \<lparr>dt_year = y, dt_month = m, dt_day = d,
                   dt_hour = r div 3600, dt_minute = (r mod 3600) div 60, dt_second = r mod 60\<rparr>)
         else Inl OverflowError)"

text \<open>
  \<open>strftime("%Y%m%d")\<close> and \<open>strftime("%H%M")\<close>, as the C library of Linux
  writes them: the year is not padded (a year below 1000 has fewer than four digits), the
  month, day, hour and minute have two digits.
\<close>

definition strftime_Ymd :: "datetime \<Rightarrow> string" where
  "strftime_Ymd dt = fmt_d 1 (dt_year dt) @ fmt_d 2 (dt_month dt) @ fmt_d 2 (dt_day dt)"

definition strftime_HM :: "datetime \<Rightarrow> string" where
  "strftime_HM dt = fmt_d 2 (dt_hour dt) @ fmt_d 2 (dt_minute dt)"

section \<open>parse\_str\_edf\<close>

text \<open>One session dictionary: \<open>record_date\<close>, \<open>start_time\<close>, \<open>duration_min\<close>.\<close>

record session =
  record_date :: string
  start_time :: datetime
  duration_min :: int

text \<open>\<open>f.seek(pos); f.read(n)\<close> for \<open>pos, n \<ge> 0\<close>, and the slice \<open>header[a:b]\<close>.\<close>

definition f_read :: "bytes \<Rightarrow> nat \<Rightarrow> nat \<Rightarrow> bytes" where
  "f_read f pos n = take n (drop pos f)"

definition slice :: "bytes \<Rightarrow> nat \<Rightarrow> nat \<Rightarrow> bytes" where
  "slice h a b = take (b - a) (drop a h)"

text \<open>\<open>int(bs.decode().strip())\<close>.\<close>

definition int_field :: "bytes \<Rightarrow> error + int" where
  "int_field bs = bindE (decode bs) (\<lambda>s. py_int (strip s))"

definition str_field :: "bytes \<Rightarrow> error + string" where
  "str_field bs = bindE (decode bs) (\<lambda>s. Inr (strip s))"

text \<open>The two-digit year of the header: \<open>2000 + int(yy) if int(yy) < 85 else 1900 + int(yy)\<close>.\<close>

definition header_year :: "int \<Rightarrow> int" where
  "header_year yy = (if yy < 85 then 2000 + yy else 1900 + yy)"

definition parse_start_dt :: "string \<Rightarrow> string \<Rightarrow> error + datetime" where
  "parse_start_dt date_str time_str =
     (case split_on CHR ''.'' date_str of
        [dd, mm, yy] \<Rightarrow>
          (case split_on CHR ''.'' time_str of
             [hh, mi, ss] \<Rightarrow>
               bindE (py_int yy) (\<lambda>y.
               bindE (py_int mm) (\<lambda>m.
               bindE (py_int dd) (\<lambda>d.
               bindE (py_int hh) (\<lambda>h.
               bindE (py_int mi) (\<lambda>i.
               bindE (py_int ss) (\<lambda>s.
                 datetime_new (header_year y) m d h i s))))))
           | _ \<Rightarrow> Inl ValueError_unpack)
      | _ \<Rightarrow> Inl ValueError_unpack)"

text \<open>Lines 82 to 92: the fixed 256-byte header.\<close>

record edf_header =
  num_records :: int
  num_signals :: int
  header_bytes :: int
  start_dt :: datetime

definition read_header :: "bytes \<Rightarrow> error + edf_header" where
  "read_header f =
     (let header = f_read f 0 256 in
      bindE (int_field (slice header 236 244)) (\<lambda>nr.
      bindE (int_field (slice header 252 256)) (\<lambda>ns.
      bindE (int_field (slice header 184 192)) (\<lambda>hb.
      bindE (str_field (slice header 168 176)) (\<lambda>date_str.
      bindE (str_field (slice header 176 184)) (\<lambda>time_str.
      bindE (parse_start_dt date_str time_str) (\<lambda>dt.
        Inr \<lparr>num_records = nr, num_signals = ns, header_bytes = hb, start_dt = dt\<rparr>)))))))"

text \<open>
  Lines 94 to 102: the samples-per-record fields, read one after the other from
  \<open>spr_offset\<close>, and the labels, read one after the other from byte 256.
\<close>

definition read_samples_per_record :: "bytes \<Rightarrow> int \<Rightarrow> error + int list" where
  "read_samples_per_record f ns =
     (let spr_offset = 256 + ns * (16 + 80 + 8 + 8 + 8 + 8 + 8 + 80) in
      if spr_offset < 0 then Inl OSError
      else mapE (\<lambda>k. int_field (f_read f (nat spr_offset + 8 * k) 8)) [0..<nat ns])"

definition read_labels :: "bytes \<Rightarrow> int \<Rightarrow> error + string list" where
  "read_labels f ns = mapE (\<lambda>k. str_field (f_read f (256 + 16 * k) 16)) [0..<nat ns]"

text \<open>Lines 104 to 110: the last label equal to each name wins.\<close>

fun find_masks :: "(nat \<times> string) list \<Rightarrow> nat option \<times> nat option \<Rightarrow> nat option \<times> nat option" where
  "find_masks [] acc = acc"
| "find_masks ((i, label) # rest) (maskon_idx, maskoff_idx) =
     (if label = ''MaskOn'' then find_masks rest (Some i, maskoff_idx)
      else if label = ''MaskOff'' then find_masks rest (maskon_idx, Some i)
      else find_masks rest (maskon_idx, maskoff_idx))"

text \<open>
  \<open>struct.unpack("<" + "h" * n, f.read(n * 2))\<close> after \<open>f.seek(pos)\<close>: signed 16-bit
  little-endian values.
\<close>

definition short_le :: "char \<Rightarrow> char \<Rightarrow> int" where
  "short_le lo hi =
     (let u = int (of_char lo) + 256 * int (of_char hi) in if u < 32768 then u else u - 65536)"

fun unpack_h :: "bytes \<Rightarrow> int list" where
  "unpack_h (lo # hi # rest) = short_le lo hi # unpack_h rest"
| "unpack_h _ = []"

definition read_shorts :: "bytes \<Rightarrow> int \<Rightarrow> int \<Rightarrow> error + int list" where
  "read_shorts f pos n =
     (if pos < 0 then Inl OSError
      else if n < 0 then Inl ValueError_read
      else let data = f_read f (nat pos) (nat (n * 2)) in
           if int (length data) \<noteq> n * 2 then Inl StructError else Inr (unpack_h data))"

text \<open>Lines 139 to 160: the loop over the sample indices of one record.\<close>

fun pair_loop :: "datetime \<Rightarrow> datetime \<Rightarrow> int list \<Rightarrow> int list \<Rightarrow> nat list \<Rightarrow> error + session list" where
  "pair_loop record_date_dt noon maskon_vals maskoff_vals [] = Inr []"
| "pair_loop record_date_dt noon maskon_vals maskoff_vals (i # rest) =
     (let on = maskon_vals ! i; off = maskoff_vals ! i in
      if on \<le> 0 \<or> off \<le> 0 then pair_loop record_date_dt noon maskon_vals maskoff_vals rest
      else if on \<ge> 1440 \<or> off \<ge> 1440 then pair_loop record_date_dt noon maskon_vals maskoff_vals rest
      else
        let duration = off - on in
        if duration \<le> 0 then pair_loop record_date_dt noon maskon_vals maskoff_vals rest
        else
          bindE (datetime_add noon 0 (on * 60)) (\<lambda>session_start.
          bindE (pair_loop record_date_dt noon maskon_vals maskoff_vals rest) (\<lambda>more.
            Inr (\<lparr>record_date = strftime_Ymd record_date_dt,
                  start_time = session_start,
                  duration_min = duration\<rparr> # more))))"

text \<open>The local variables of \<open>parse_str_edf\<close> that the loop over the records reads.\<close>

record layout =
  l_header_bytes :: int
  l_start_dt :: datetime
  total_samples :: int
  maskon_sample_offset :: int
  maskoff_sample_offset :: int
  maskon_nsamples :: int
  maskoff_nsamples :: int

text \<open>Lines 123 to 137: what one pass of the loop over the records reads.\<close>

definition record_day :: "layout \<Rightarrow> nat \<Rightarrow> error + datetime" where
  "record_day l rec_idx = datetime_add (l_start_dt l) (int rec_idx) 0"

definition noon_of :: "datetime \<Rightarrow> datetime" where
  "noon_of d = d\<lparr>dt_hour := 12, dt_minute := 0, dt_second := 0\<rparr>"

definition rec_start :: "layout \<Rightarrow> nat \<Rightarrow> int" where
  "rec_start l rec_idx = l_header_bytes l + int rec_idx * total_samples l * 2"

definition read_maskon :: "bytes \<Rightarrow> layout \<Rightarrow> nat \<Rightarrow> error + int list" where
  "read_maskon f l rec_idx =
     read_shorts f (rec_start l rec_idx + maskon_sample_offset l * 2) (maskon_nsamples l)"

definition read_maskoff :: "bytes \<Rightarrow> layout \<Rightarrow> nat \<Rightarrow> error + int list" where
  "read_maskoff f l rec_idx =
     read_shorts f (rec_start l rec_idx + maskoff_sample_offset l * 2) (maskoff_nsamples l)"

fun record_loop :: "bytes \<Rightarrow> layout \<Rightarrow> nat list \<Rightarrow> error + session list" where
  "record_loop f l [] = Inr []"
| "record_loop f l (rec_idx # rest) =
     bindE (record_day l rec_idx) (\<lambda>record_date_dt.
     bindE (read_maskon f l rec_idx) (\<lambda>maskon_vals.
     bindE (read_maskoff f l rec_idx) (\<lambda>maskoff_vals.
     bindE (pair_loop record_date_dt (noon_of record_date_dt) maskon_vals maskoff_vals
              [0..<nat (min (maskon_nsamples l) (maskoff_nsamples l))]) (\<lambda>found.
     bindE (record_loop f l rest) (\<lambda>more.
       Inr (found @ more))))))"

text \<open>Lines 94 to 118: from the header to the layout, with the check of line 112.\<close>

definition read_layout :: "bytes \<Rightarrow> edf_header \<Rightarrow> error + layout" where
  "read_layout f h =
     bindE (read_samples_per_record f (num_signals h)) (\<lambda>samples_per_record.
     bindE (read_labels f (num_signals h)) (\<lambda>labels.
       case find_masks (enumerate 0 labels) (None, None) of
         (Some maskon_idx, Some maskoff_idx) \<Rightarrow>
           Inr \<lparr>l_header_bytes = header_bytes h,
                l_start_dt = start_dt h,
                total_samples = sum_list samples_per_record,
                maskon_sample_offset = sum_list (take maskon_idx samples_per_record),
                maskoff_sample_offset = sum_list (take maskoff_idx samples_per_record),
                maskon_nsamples = samples_per_record ! maskon_idx,
                maskoff_nsamples = samples_per_record ! maskoff_idx\<rparr>
       | _ \<Rightarrow> Inl ValueError_mask))"

definition parse_str_edf :: "bytes \<Rightarrow> error + session list" where
  "parse_str_edf f =
     bindE (read_header f) (\<lambda>h.
     bindE (read_layout f h) (\<lambda>l.
       record_loop f l [0..<nat (num_records h)]))"

section \<open>Vocabulary of the claims about parse\_str\_edf\<close>

definition valid_pair :: "int \<times> int \<Rightarrow> bool" where
  "valid_pair p = (case p of (on, off) \<Rightarrow> on > 0 \<and> off > 0 \<and> on < 1440 \<and> off < 1440 \<and> off - on > 0)"

definition rejected_pair :: "int \<times> int \<Rightarrow> bool" where
  "rejected_pair p = (case p of (on, off) \<Rightarrow> on \<le> 0 \<or> off \<le> 0 \<or> on \<ge> 1440 \<or> off \<ge> 1440 \<or> off \<le> on)"

definition samples_at :: "bytes \<Rightarrow> int \<Rightarrow> int \<Rightarrow> int list" where
  "samples_at f pos n = unpack_h (f_read f (nat pos) (nat (n * 2)))"

definition maskon_vals :: "bytes \<Rightarrow> layout \<Rightarrow> nat \<Rightarrow> int list" where
  "maskon_vals f l rec_idx =
     samples_at f (rec_start l rec_idx + maskon_sample_offset l * 2) (maskon_nsamples l)"

definition maskoff_vals :: "bytes \<Rightarrow> layout \<Rightarrow> nat \<Rightarrow> int list" where
  "maskoff_vals f l rec_idx =
     samples_at f (rec_start l rec_idx + maskoff_sample_offset l * 2) (maskoff_nsamples l)"

definition marker_pairs :: "bytes \<Rightarrow> layout \<Rightarrow> nat \<Rightarrow> (int \<times> int) list" where
  "marker_pairs f l rec_idx = zip (maskon_vals f l rec_idx) (maskoff_vals f l rec_idx)"

definition made_from :: "layout \<Rightarrow> session \<Rightarrow> nat \<times> int \<times> int \<Rightarrow> bool" where
  "made_from l s x = (case x of (rec_idx, on, off) \<Rightarrow>
     (case record_day l rec_idx of
        Inl e \<Rightarrow> False
      | Inr d \<Rightarrow> record_date s = strftime_Ymd d
               \<and> datetime_add (noon_of d) 0 (on * 60) = Inr (start_time s)
               \<and> duration_min s = off - on))"

definition valid_pairs_of :: "bytes \<Rightarrow> layout \<Rightarrow> nat list \<Rightarrow> (nat \<times> int \<times> int) list" where
  "valid_pairs_of f l idxs =
     concat (map (\<lambda>i. map (Pair i) (filter valid_pair (marker_pairs f l i))) idxs)"

definition ljust :: "nat \<Rightarrow> string \<Rightarrow> string" where
  "ljust n s = s @ replicate (n - length s) CHR '' ''"

definition pack_h :: "nat \<Rightarrow> bytes" where
  "pack_h n = [char_of (n mod 256), char_of (n div 256)]"

definition example_fixed_header :: "string \<Rightarrow> string \<Rightarrow> bytes" where
  "example_fixed_header nr ns =
     replicate 168 CHR '' '' @ ''10.01.24'' @ ''00.00.00'' @ ljust 8 ''768''
     @ replicate 44 CHR '' '' @ ljust 8 nr @ replicate 8 CHR '' '' @ ljust 4 ns"

definition example_file :: bytes where
  "example_file =
     example_fixed_header ''2'' ''2''
     @ ljust 16 ''MaskOn'' @ ljust 16 ''MaskOff'' @ replicate 400 CHR '' ''
     @ ljust 8 ''2'' @ ljust 8 ''2'' @ replicate 64 CHR '' ''
     @ pack_h 1320 @ pack_h 0 @ pack_h 1400 @ pack_h 0
     @ pack_h 30 @ pack_h 200 @ pack_h 100 @ pack_h 150"

definition unlabelled_file :: bytes where
  "unlabelled_file =
     example_fixed_header ''0'' ''2''
     @ ljust 16 ''Press'' @ ljust 16 ''Leak'' @ replicate 400 CHR '' ''
     @ ljust 8 ''2'' @ ljust 8 ''2'' @ replicate 64 CHR '' ''"

definition example_header :: edf_header where
  "example_header = \<lparr>num_records = 2, num_signals = 2, header_bytes = 768,
     start_dt = \<lparr>dt_year = 2024, dt_month = 1, dt_day = 10,
                 dt_hour = 0, dt_minute = 0, dt_second = 0\<rparr>\<rparr>"

definition example_layout :: layout where
  "example_layout = \<lparr>l_header_bytes = 768,
     l_start_dt = \<lparr>dt_year = 2024, dt_month = 1, dt_day = 10,
                   dt_hour = 0, dt_minute = 0, dt_second = 0\<rparr>,
     total_samples = 4, maskon_sample_offset = 0, maskoff_sample_offset = 2,
     maskon_nsamples = 2, maskoff_nsamples = 2\<rparr>"

definition example_sessions :: "session list" where
  "example_sessions =
     [\<lparr>record_date = ''20240110'',
       start_time = \<lparr>dt_year = 2024, dt_month = 1, dt_day = 11,
                     dt_hour = 10, dt_minute = 0, dt_second = 0\<rparr>,
       duration_min = 80\<rparr>,
      \<lparr>record_date = ''20240111'',
       start_time = \<lparr>dt_year = 2024, dt_month = 1, dt_day = 11,
                     dt_hour = 12, dt_minute = 30, dt_second = 0\<rparr>,
       duration_min = 70\<rparr>]"

definition year_85_file :: bytes where
  "year_85_file =
     replicate 168 CHR '' '' @ ''31.12.85'' @ ''23.59.59'' @ ljust 8 ''256''
     @ replicate 44 CHR '' '' @ ljust 8 ''0'' @ replicate 8 CHR '' '' @ ljust 4 ''0''"

section \<open>EzShareCard\<close>

text \<open>
  The card answers a HEAD or a GET request for a URL. A request that raises a
  \<open>requests.RequestException\<close> (timeout, connection refused) is \<open>HeadFailed\<close> or
  \<open>GetFailed\<close>. The headers of a reply are a map from the header names the code asks for.
  The body of a GET reply is the bytes that \<open>iter_content\<close> delivers; the flag tells
  whether the stream then broke with a \<open>RequestException\<close>. The answers are a function
  of the URL: the device does not change while the program runs.
\<close>

datatype head_result = HeadFailed | HeadReply "string \<rightharpoonup> string"

datatype get_result = GetFailed | GetReply "string \<rightharpoonup> string" bytes bool

record card =
  base_url :: string
  http_head :: "string \<Rightarrow> head_result"
  http_get :: "string \<Rightarrow> get_result"

text \<open>\<open>path.lstrip('/')\<close>, \<open>path.rstrip('/')\<close>, \<open>sub in s\<close>, \<open>headers.get(name, "")\<close>.\<close>

definition lstrip_slash :: "string \<Rightarrow> string" where
  "lstrip_slash p = dropWhile (\<lambda>c. c = CHR ''/'') p"

definition rstrip_slash :: "string \<Rightarrow> string" where
  "rstrip_slash p = rev (dropWhile (\<lambda>c. c = CHR ''/'') (rev p))"

fun substring_in :: "string \<Rightarrow> string \<Rightarrow> bool" where
  "substring_in sub [] = (sub = [])"
| "substring_in sub (c # cs) = (take (length sub) (c # cs) = sub \<or> substring_in sub cs)"

definition header_get :: "(string \<rightharpoonup> string) \<Rightarrow> string \<Rightarrow> string" where
  "header_get hs name = (case hs name of None \<Rightarrow> [] | Some v \<Rightarrow> v)"

definition card_url :: "card \<Rightarrow> string \<Rightarrow> string" where
  "card_url c path = base_url c @ ''/'' @ lstrip_slash path"

text \<open>
  \<open>is_real_file\<close>: the pair \<open>(exists, sz)\<close>. \<open>int(...)\<close> of a \<open>Content-Length\<close>
  that is no integer raises \<open>ValueError\<close>, which the method does not catch.
\<close>

definition is_real_file :: "card \<Rightarrow> string \<Rightarrow> error + (bool \<times> int)" where
  "is_real_file c path =
     (case http_head c (card_url c path) of
        HeadFailed \<Rightarrow> Inr (False, 0)
      | HeadReply hs \<Rightarrow>
          let ct = header_get hs ''Content-Type'' in
          if substring_in ''text/html'' ct then Inr (False, 0)
          else (case hs ''Content-Length'' of
                  None \<Rightarrow> Inr (True, 0)
                | Some v \<Rightarrow> bindE (py_int v) (\<lambda>content_length. Inr (True, content_length))))"

definition is_real_directory :: "card \<Rightarrow> string \<Rightarrow> error + bool" where
  "is_real_directory c path =
     bindE (is_real_file c (rstrip_slash path)) (\<lambda>r. case r of (exists, sz) \<Rightarrow>
       Inr (exists \<and> sz = 0))"

text \<open>
  Local storage: the regular files under their paths. \<open>download_file\<close> returns its
  boolean and the storage it leaves. The file is opened for writing before the first
  chunk arrives, so a broken stream leaves the chunks received. Errors of the local
  file system are not modelled; the size-mismatch warning is only printed.
\<close>

type_synonym storage = "string \<rightharpoonup> bytes"

definition download_file :: "card \<Rightarrow> storage \<Rightarrow> string \<Rightarrow> string \<Rightarrow> bool \<times> storage" where
  "download_file c fs remote_path local_path =
     (case http_get c (card_url c remote_path) of
        GetFailed \<Rightarrow> (False, fs)
      | GetReply hs body broken \<Rightarrow>
          let ct = header_get hs ''Content-Type'' in
          if substring_in ''text/html'' ct then (False, fs)
          else if broken then (False, fs(local_path \<mapsto> body))
          else (True, fs(local_path \<mapsto> body)))"

section \<open>DATALOG probing\<close>

definition datalog_path :: "string \<Rightarrow> string \<Rightarrow> string \<Rightarrow> string \<Rightarrow> string \<Rightarrow> string \<Rightarrow> string" where
  "datalog_path dir_date file_date hhmm ss_str ftype ext =
     ''DATALOG/'' @ dir_date @ ''/'' @ file_date @ ''_'' @ hhmm @ ss_str @ ''_'' @ ftype @ ext"

text \<open>
  The two search functions return their result, \<open>(seconds, size)\<close> or \<open>(None, 0)\<close>,
  together with the paths they gave to \<open>is_real_file\<close>, in the order of the calls.
\<close>

type_synonym found = "string option \<times> int"

fun scan_seconds :: "card \<Rightarrow> string \<Rightarrow> string \<Rightarrow> string \<Rightarrow> string \<Rightarrow> int list
    \<Rightarrow> (error + found) \<times> string list" where
  "scan_seconds c dir_date file_date hhmm ftype [] = (Inr (None, 0), [])"
| "scan_seconds c dir_date file_date hhmm ftype (ss # rest) =
     (let path = datalog_path dir_date file_date hhmm (fmt_d 2 ss) ftype ''.edf'' in
      case is_real_file c path of
        Inl e \<Rightarrow> (Inl e, [path])
      | Inr (exists, sz) \<Rightarrow>
          if exists \<and> sz > 0 then (Inr (Some (fmt_d 2 ss), sz), [path])
          else (case scan_seconds c dir_date file_date hhmm ftype rest of
                  (r, probed) \<Rightarrow> (r, path # probed)))"

definition find_seconds_for_type :: "card \<Rightarrow> string \<Rightarrow> string \<Rightarrow> string \<Rightarrow> string
    \<Rightarrow> (error + found) \<times> string list" where
  "find_seconds_for_type c dir_date file_date hhmm ftype =
     scan_seconds c dir_date file_date hhmm ftype [0..59]"

text \<open>
  \<open>find_seconds_near\<close>: the inner loop over the candidates of one offset returns
  \<open>Some\<close> of the function's result when it returns from the function, and \<open>None\<close>
  when the loop ends.
\<close>

fun near_candidates :: "card \<Rightarrow> string \<Rightarrow> string \<Rightarrow> string \<Rightarrow> string \<Rightarrow> int list
    \<Rightarrow> (error + found) option \<times> string list" where
  "near_candidates c dir_date file_date hhmm ftype [] = (None, [])"
| "near_candidates c dir_date file_date hhmm ftype (candidate # rest) =
     (if candidate < 0 \<or> candidate \<ge> 60 then near_candidates c dir_date file_date hhmm ftype rest
      else
        let ss_str = fmt_d 2 candidate;
            path = datalog_path dir_date file_date hhmm ss_str ftype ''.edf'' in
        case is_real_file c path of
          Inl e \<Rightarrow> (Some (Inl e), [path])
        | Inr (exists, sz) \<Rightarrow>
            if exists \<and> sz > 0 then (Some (Inr (Some ss_str, sz)), [path])
            else (case near_candidates c dir_date file_date hhmm ftype rest of
                    (r, probed) \<Rightarrow> (r, path # probed)))"

fun near_offsets :: "card \<Rightarrow> string \<Rightarrow> string \<Rightarrow> string \<Rightarrow> string \<Rightarrow> int \<Rightarrow> int list
    \<Rightarrow> (error + found) \<times> string list" where
  "near_offsets c dir_date file_date hhmm ftype ref [] = (Inr (None, 0), [])"
| "near_offsets c dir_date file_date hhmm ftype ref (offset # rest) =
     (let candidates = (if offset = 0 then [ref + offset] else [ref + offset, ref - offset]) in
      case near_candidates c dir_date file_date hhmm ftype candidates of
        (Some r, probed) \<Rightarrow> (r, probed)
      | (None, probed) \<Rightarrow>
          (case near_offsets c dir_date file_date hhmm ftype ref rest of
             (r, later) \<Rightarrow> (r, probed @ later)))"

definition find_seconds_near :: "card \<Rightarrow> string \<Rightarrow> string \<Rightarrow> string \<Rightarrow> string \<Rightarrow> string \<Rightarrow> int
    \<Rightarrow> (error + found) \<times> string list" where
  "find_seconds_near c dir_date file_date hhmm ftype reference_ss window =
     (case py_int reference_ss of
        Inl e \<Rightarrow> (Inl e, [])
      | Inr ref \<Rightarrow> near_offsets c dir_date file_date hhmm ftype ref [0..window])"

section \<open>download\_datalog\<close>

definition DATALOG_TYPES_EARLY :: "string list" where
  "DATALOG_TYPES_EARLY = [''EVE'', ''CSL'']"

definition DATALOG_TYPES_LATE :: "string list" where
  "DATALOG_TYPES_LATE = [''BRP'', ''PLD'', ''SAD'']"

definition DATALOG_ALL_TYPES :: "string list" where
  "DATALOG_ALL_TYPES = DATALOG_TYPES_EARLY @ DATALOG_TYPES_LATE"

text \<open>\<open>os.path.join(a, b)\<close> on POSIX.\<close>

definition path_join :: "string \<Rightarrow> string \<Rightarrow> string" where
  "path_join a b =
     (if take 1 b = ''/'' then b
      else if a = [] \<or> last a = CHR ''/'' then a @ b
      else a @ ''/'' @ b)"

text \<open>\<open>os.path.exists(p) and os.path.getsize(p) == n\<close>.\<close>

definition same_size :: "storage \<Rightarrow> string \<Rightarrow> int \<Rightarrow> bool" where
  "same_size fs p n = (case fs p of None \<Rightarrow> False | Some content \<Rightarrow> int (length content) = n)"

text \<open>
  What \<open>download_datalog\<close> changes while it runs: local storage, and its four counters.
  \<open>probes\<close> lists the paths given to \<open>is_real_file\<close>, in the order of the calls.
\<close>

record dl_state =
  fs :: storage
  probes :: "string list"
  total_downloaded :: int
  total_skipped :: int
  total_probed :: int
  total_not_found :: int

type_synonym confirmed_file = "string \<times> string \<times> int"

text \<open>Lines 454 to 483: one pass of the loop over \<open>files_to_download\<close>.\<close>

definition fetch_edf :: "card \<Rightarrow> string \<Rightarrow> string \<Rightarrow> int \<Rightarrow> dl_state \<Rightarrow> dl_state" where
  "fetch_edf c remote_edf local_edf sz st =
     (if same_size (fs st) local_edf sz then st\<lparr>total_skipped := total_skipped st + 1\<rparr>
      else (case download_file c (fs st) remote_edf local_edf of
              (ok, fs') \<Rightarrow>
                if ok then st\<lparr>fs := fs', total_downloaded := total_downloaded st + 1\<rparr>
                else st\<lparr>fs := fs'\<rparr>))"

definition fetch_crc :: "card \<Rightarrow> string \<Rightarrow> string \<Rightarrow> dl_state \<Rightarrow> error + dl_state" where
  "fetch_crc c remote_crc local_crc st =
     bindE (is_real_file c remote_crc) (\<lambda>r. case r of (crc_exists, crc_size) \<Rightarrow>
       let st1 = st\<lparr>probes := probes st @ [remote_crc]\<rparr> in
       if crc_exists \<and> crc_size > 0 then
         (if \<not> same_size (fs st1) local_crc crc_size
          then Inr (st1\<lparr>fs := snd (download_file c (fs st1) remote_crc local_crc)\<rparr>)
          else Inr st1)
       else Inr st1)"

definition fetch_file :: "card \<Rightarrow> string \<Rightarrow> string \<Rightarrow> string \<Rightarrow> string \<Rightarrow> confirmed_file
    \<Rightarrow> dl_state \<Rightarrow> error + dl_state" where
  "fetch_file c output_dir dir_date file_date hhmm x st =
     (case x of (ftype, ss, sz) \<Rightarrow>
        let remote_edf = datalog_path dir_date file_date hhmm ss ftype ''.edf'';
            remote_crc = datalog_path dir_date file_date hhmm ss ftype ''.crc'';
            local_edf = path_join output_dir remote_edf;
            local_crc = path_join output_dir remote_crc
        in fetch_crc c remote_crc local_crc (fetch_edf c remote_edf local_edf sz st))"

fun fetch_files :: "card \<Rightarrow> string \<Rightarrow> string \<Rightarrow> string \<Rightarrow> string \<Rightarrow> confirmed_file list
    \<Rightarrow> dl_state \<Rightarrow> error + dl_state" where
  "fetch_files c output_dir dir_date file_date hhmm [] st = Inr st"
| "fetch_files c output_dir dir_date file_date hhmm (x # rest) st =
     bindE (fetch_file c output_dir dir_date file_date hhmm x st)
       (fetch_files c output_dir dir_date file_date hhmm rest)"

text \<open>
  Lines 436 to 452: the loops over the late and the early types. Each call of
  \<open>find_seconds_near\<close> adds 1 to \<open>total_probed\<close>.
\<close>

definition near_step :: "card \<Rightarrow> string \<Rightarrow> string \<Rightarrow> string \<Rightarrow> string \<Rightarrow> string
    \<Rightarrow> confirmed_file list \<times> dl_state \<Rightarrow> error + confirmed_file list \<times> dl_state" where
  "near_step c dir_date file_date hhmm brp_ss ftype acc =
     (case acc of (files_to_download, st) \<Rightarrow>
        (case find_seconds_near c dir_date file_date hhmm ftype brp_ss 15 of
           (Inl e, probed) \<Rightarrow> Inl e
         | (Inr (ss, sz), probed) \<Rightarrow>
             let st1 = st\<lparr>probes := probes st @ probed, total_probed := total_probed st + 1\<rparr> in
             (case ss of
                None \<Rightarrow> Inr (files_to_download, st1)
              | Some s \<Rightarrow> Inr (files_to_download @ [(ftype, s, sz)], st1))))"

fun late_loop :: "card \<Rightarrow> string \<Rightarrow> string \<Rightarrow> string \<Rightarrow> string \<Rightarrow> string list
    \<Rightarrow> confirmed_file list \<times> dl_state \<Rightarrow> error + confirmed_file list \<times> dl_state" where
  "late_loop c dir_date file_date hhmm brp_ss [] acc = Inr acc"
| "late_loop c dir_date file_date hhmm brp_ss (ftype # rest) acc =
     (if ftype = ''BRP'' then late_loop c dir_date file_date hhmm brp_ss rest acc
      else bindE (near_step c dir_date file_date hhmm brp_ss ftype acc)
             (late_loop c dir_date file_date hhmm brp_ss rest))"

fun early_loop :: "card \<Rightarrow> string \<Rightarrow> string \<Rightarrow> string \<Rightarrow> string \<Rightarrow> string list
    \<Rightarrow> confirmed_file list \<times> dl_state \<Rightarrow> error + confirmed_file list \<times> dl_state" where
  "early_loop c dir_date file_date hhmm brp_ss [] acc = Inr acc"
| "early_loop c dir_date file_date hhmm brp_ss (ftype # rest) acc =
     bindE (near_step c dir_date file_date hhmm brp_ss ftype acc)
       (early_loop c dir_date file_date hhmm brp_ss rest)"

text \<open>Lines 412 to 483: one pass of the loop over the sessions of a record day.\<close>

definition process_session :: "card \<Rightarrow> string \<Rightarrow> string \<Rightarrow> session \<Rightarrow> dl_state \<Rightarrow> error + dl_state" where
  "process_session c output_dir dir_date s st =
     (let start = start_time s;
          file_date = strftime_Ymd start;
          hhmm = strftime_HM start
      in case find_seconds_for_type c dir_date file_date hhmm ''BRP'' of
           (Inl e, probed) \<Rightarrow> Inl e
         | (Inr (None, brp_size), probed) \<Rightarrow>
             Inr (st\<lparr>probes := probes st @ probed,
                     total_probed := total_probed st + 60,
                     total_not_found := total_not_found st + int (length DATALOG_ALL_TYPES)\<rparr>)
         | (Inr (Some brp_ss, brp_size), probed) \<Rightarrow>
             bindE (py_int brp_ss) (\<lambda>n.
             bindE (late_loop c dir_date file_date hhmm brp_ss DATALOG_TYPES_LATE
                      ([(''BRP'', brp_ss, brp_size)],
                       st\<lparr>probes := probes st @ probed,
                          total_probed := total_probed st + (n + 1)\<rparr>)) (\<lambda>acc1.
             bindE (early_loop c dir_date file_date hhmm brp_ss DATALOG_TYPES_EARLY acc1) (\<lambda>acc2.
               fetch_files c output_dir dir_date file_date hhmm (fst acc2) (snd acc2)))))"

fun session_loop :: "card \<Rightarrow> string \<Rightarrow> string \<Rightarrow> session list \<Rightarrow> dl_state \<Rightarrow> error + dl_state" where
  "session_loop c output_dir dir_date [] st = Inr st"
| "session_loop c output_dir dir_date (s # rest) st =
     bindE (process_session c output_dir dir_date s st) (session_loop c output_dir dir_date rest)"

text \<open>
  Lines 388 to 393: the dictionary \<open>by_dir\<close>, with its keys in the order of their first
  insertion, and \<open>by_dir[d]\<close>.
\<close>

fun by_dir_add :: "session \<Rightarrow> (string \<times> session list) list \<Rightarrow> (string \<times> session list) list" where
  "by_dir_add s [] = [(record_date s, [s])]"
| "by_dir_add s ((d, l) # rest) =
     (if d = record_date s then (d, l @ [s]) # rest else (d, l) # by_dir_add s rest)"

definition group_by_dir :: "session list \<Rightarrow> (string \<times> session list) list" where
  "group_by_dir filtered = foldl (\<lambda>by_dir s. by_dir_add s by_dir) [] filtered"

definition by_dir_get :: "(string \<times> session list) list \<Rightarrow> string \<Rightarrow> session list" where
  "by_dir_get by_dir d = (case map_of by_dir d of None \<Rightarrow> [] | Some l \<Rightarrow> l)"

text \<open>Lines 403 to 483: one pass of the loop over the record days.\<close>

definition process_date :: "card \<Rightarrow> string \<Rightarrow> (string \<times> session list) list \<Rightarrow> string
    \<Rightarrow> dl_state \<Rightarrow> error + dl_state" where
  "process_date c output_dir by_dir dir_date st =
     bindE (is_real_directory c (''DATALOG/'' @ dir_date)) (\<lambda>is_dir.
       let st1 = st\<lparr>probes := probes st @ [rstrip_slash (''DATALOG/'' @ dir_date)]\<rparr> in
       if \<not> is_dir then Inr (st1\<lparr>total_probed := total_probed st1 + 1\<rparr>)
       else session_loop c output_dir dir_date (by_dir_get by_dir dir_date) st1)"

fun date_loop :: "card \<Rightarrow> string \<Rightarrow> (string \<times> session list) list \<Rightarrow> string list
    \<Rightarrow> dl_state \<Rightarrow> error + dl_state" where
  "date_loop c output_dir by_dir [] st = Inr st"
| "date_loop c output_dir by_dir (dir_date # rest) st =
     bindE (process_date c output_dir by_dir dir_date st) (date_loop c output_dir by_dir rest)"

text \<open>
  Lines 374 to 376: the cut-off date, from the clock and \<open>days_back\<close>.
  \<open>timedelta(days=n)\<close> raises \<open>OverflowError\<close> beyond 999999999 days.
\<close>

definition cutoff_of :: "datetime \<Rightarrow> int option \<Rightarrow> error + string option" where
  "cutoff_of now days_back =
     (case days_back of
        None \<Rightarrow> Inr None
      | Some n \<Rightarrow>
          if \<bar>n\<bar> > 999999999 then Inl OverflowError
          else bindE (datetime_add now (- n) 0) (\<lambda>t. Inr (Some (strftime_Ymd t))))"

definition before_cutoff :: "string option \<Rightarrow> session \<Rightarrow> bool" where
  "before_cutoff cutoff s =
     (case cutoff of None \<Rightarrow> False | Some cu \<Rightarrow> cu \<noteq> [] \<and> record_date s < cu)"

text \<open>
  \<open>download_datalog\<close>, from the sessions, the clock and local storage, to the counters
  and local storage at its end. Its return value is \<open>total_downloaded\<close>.
\<close>

definition download_datalog :: "card \<Rightarrow> session list \<Rightarrow> string \<Rightarrow> datetime \<Rightarrow> int option
    \<Rightarrow> storage \<Rightarrow> error + dl_state" where
  "download_datalog c sessions output_dir now days_back fs0 =
     bindE (cutoff_of now days_back) (\<lambda>cutoff.
       let filtered = filter (\<lambda>s. \<not> before_cutoff cutoff s) sessions;
           st0 = \<lparr>fs = fs0, probes = [], total_downloaded = 0, total_skipped = 0,
                  total_probed = 0, total_not_found = 0\<rparr>
       in if filtered = [] then Inr st0
          else
            let by_dir = group_by_dir filtered;
                dates = sort (map fst by_dir)
            in date_loop c output_dir by_dir dates st0)"

section \<open>Vocabulary of the claims about probing\<close>

text \<open>
  A search over a list of candidate seconds, as the specification words it: the
  candidates are probed in order and the search ends at the first candidate whose probe
  reports a file of nonzero size (or raises). \<open>search_result\<close> is what the search
  returns and \<open>search_probes\<close> the paths it probes. \<open>near_order r w\<close> is the order
  r, r+1, r-1, ..., r+w, r-w.
\<close>

definition ends_search :: "card \<Rightarrow> string \<Rightarrow> bool" where
  "ends_search c path =
     (case is_real_file c path of Inl e \<Rightarrow> True | Inr (exists, sz) \<Rightarrow> exists \<and> sz > 0)"

definition search_result :: "card \<Rightarrow> (int \<Rightarrow> string) \<Rightarrow> int list \<Rightarrow> error + found" where
  "search_result c path_of candidates =
     (case dropWhile (\<lambda>x. \<not> ends_search c (path_of x)) candidates of
        [] \<Rightarrow> Inr (None, 0)
      | x # rest \<Rightarrow>
          (case is_real_file c (path_of x) of
             Inl e \<Rightarrow> Inl e
           | Inr (exists, sz) \<Rightarrow> Inr (Some (fmt_d 2 x), sz)))"

definition search_probes :: "card \<Rightarrow> (int \<Rightarrow> string) \<Rightarrow> int list \<Rightarrow> string list" where
  "search_probes c path_of candidates =
     map path_of (takeWhile (\<lambda>x. \<not> ends_search c (path_of x)) candidates
                  @ take 1 (dropWhile (\<lambda>x. \<not> ends_search c (path_of x)) candidates))"

definition near_order :: "int \<Rightarrow> int \<Rightarrow> int list" where
  "near_order r w = r # concat (map (\<lambda>k. [r + k, r - k]) [1..w])"

definition in_seconds_range :: "int \<Rightarrow> bool" where
  "in_seconds_range x = (0 \<le> x \<and> x \<le> 59)"

definition seconds_path :: "string \<Rightarrow> string \<Rightarrow> string \<Rightarrow> string \<Rightarrow> int \<Rightarrow> string" where
  "seconds_path dir_date file_date hhmm ftype x =
     datalog_path dir_date file_date hhmm (fmt_d 2 x) ftype ''.edf''"

section \<open>Example cards and sessions\<close>

definition example_card :: "(string \<times> nat) list \<Rightarrow> card" where
  "example_card files =
     \<lparr>base_url = ''http://192.168.4.1'',
      http_head = (\<lambda>url. case map_of files url of
         None \<Rightarrow> HeadReply [''Content-Type'' \<mapsto> ''text/html'']
       | Some n \<Rightarrow> HeadReply [''Content-Type'' \<mapsto> ''text/plain'',
                               ''Content-Length'' \<mapsto> string_of_nat n]),
      http_get = (\<lambda>url. case map_of files url of
         None \<Rightarrow> GetReply [''Content-Type'' \<mapsto> ''text/html''] [] False
       | Some n \<Rightarrow> GetReply [''Content-Type'' \<mapsto> ''text/plain''] (replicate n CHR ''x'') False)\<rparr>"

definition unreachable_card :: card where
  "unreachable_card =
     \<lparr>base_url = ''http://192.168.4.1'', http_head = (\<lambda>url. HeadFailed),
      http_get = (\<lambda>url. GetFailed)\<rparr>"


definition pld_at_45 :: card where
  "pld_at_45 = example_card
     [(''http://192.168.4.1/DATALOG/20240110/20240111_100045_PLD.edf'', 1000)]"

definition brp_at_37 :: card where
  "brp_at_37 = example_card
     [(''http://192.168.4.1/DATALOG/20240110/20240111_100037_BRP.edf'', 2000)]"

definition example_session :: session where
  "example_session =
     \<lparr>record_date = ''20240110'',
      start_time = \<lparr>dt_year = 2024, dt_month = 1, dt_day = 11,
                    dt_hour = 10, dt_minute = 0, dt_second = 0\<rparr>,
      duration_min = 80\<rparr>"

definition example_state :: dl_state where
  "example_state = \<lparr>fs = Map.empty, probes = [], total_downloaded = 0, total_skipped = 0,
     total_probed = 0, total_not_found = 0\<rparr>"


section \<open>Vocabulary of the claims about fetching\<close>

text \<open>
  \<open>confirmed c path n\<close>: the probe of the path reports a file of the nonzero size n.
  \<open>sizes_kept c\<close>: a download of a confirmed data file that succeeds leaves a local copy
  of the probed size. \<open>can_fetch c\<close>: the download of every confirmed data file succeeds.
  \<open>synced\<close>: the local copy of a path has its probed size. \<open>settled\<close>: the local copy has
  its probed size, or a download of the path fails and leaves the storage as it is.
  \<open>rewritten\<close>: the local copy has its probed size, or a download of the path leaves the
  storage as it is. \<open>covers\<close>: every relative path synced, settled or rewritten in the
  first storage is so in the second.
\<close>

definition confirmed :: "card \<Rightarrow> string \<Rightarrow> int \<Rightarrow> bool" where
  "confirmed c path n = (is_real_file c path = Inr (True, n) \<and> 0 < n)"

definition sizes_kept :: "card \<Rightarrow> bool" where
  "sizes_kept c =
     (\<forall>dd fd hhmm ss ft n sto l sto'.
        confirmed c (datalog_path dd fd hhmm ss ft ''.edf'') n
        \<and> download_file c sto (datalog_path dd fd hhmm ss ft ''.edf'') l = (True, sto')
        \<longrightarrow> same_size sto' l n)"

definition can_fetch :: "card \<Rightarrow> bool" where
  "can_fetch c =
     (\<forall>dd fd hhmm ss ft n sto l.
        confirmed c (datalog_path dd fd hhmm ss ft ''.edf'') n
        \<longrightarrow> fst (download_file c sto (datalog_path dd fd hhmm ss ft ''.edf'') l))"

definition synced :: "card \<Rightarrow> string \<Rightarrow> storage \<Rightarrow> string \<Rightarrow> bool" where
  "synced c output_dir sto path =
     (\<forall>n. confirmed c path n \<longrightarrow> same_size sto (path_join output_dir path) n)"

definition settled :: "card \<Rightarrow> string \<Rightarrow> storage \<Rightarrow> string \<Rightarrow> bool" where
  "settled c output_dir sto path =
     (\<forall>n. confirmed c path n \<longrightarrow>
        same_size sto (path_join output_dir path) n
        \<or> download_file c sto path (path_join output_dir path) = (False, sto))"

definition rewritten :: "card \<Rightarrow> string \<Rightarrow> storage \<Rightarrow> string \<Rightarrow> bool" where
  "rewritten c output_dir sto path =
     (\<forall>n. confirmed c path n \<longrightarrow>
        same_size sto (path_join output_dir path) n
        \<or> snd (download_file c sto path (path_join output_dir path)) = sto)"

definition covers :: "card \<Rightarrow> string \<Rightarrow> storage \<Rightarrow> storage \<Rightarrow> bool" where
  "covers c output_dir sto sto' =
     (\<forall>path. take 1 path \<noteq> ''/'' \<longrightarrow>
        (synced c output_dir sto path \<longrightarrow> synced c output_dir sto' path)
        \<and> (settled c output_dir sto path \<longrightarrow> settled c output_dir sto' path)
        \<and> (rewritten c output_dir sto path \<longrightarrow> rewritten c output_dir sto' path))"

text \<open>
  \<open>rerunnable X\<close>: a step that has run once changes, when run again on a storage that
  covers its result, nothing but the probe list and the counters; it repeats its probes,
  downloads nothing, and counts as skipped at least every file it had fetched or skipped,
  and exactly those when every confirmed data file can be downloaded.
  \<open>reruns_clean X sto\<close>: run on a storage that covers \<open>sto\<close>, the step returns, and leaves
  the storage and the count of downloads as they are.
  \<open>loop_shape\<close>: a step of the search loops either always raises or appends the same
  confirmed files and probes to whatever it is given.
\<close>

definition rerunnable :: "card \<Rightarrow> string \<Rightarrow> (dl_state \<Rightarrow> error + dl_state) \<Rightarrow> bool" where
  "rerunnable c output_dir X =
     (\<forall>st st1. X st = Inr st1 \<longrightarrow>
        (\<exists>ps n k nf.
           probes st1 = probes st @ ps
           \<and> total_downloaded st1 + total_skipped st1 = total_downloaded st + total_skipped st + n
           \<and> total_probed st1 = total_probed st + k
           \<and> total_not_found st1 = total_not_found st + nf
           \<and> covers c output_dir (fs st) (fs st1)
           \<and> (\<forall>st'. covers c output_dir (fs st1) (fs st') \<longrightarrow>
                 (\<exists>sk. n \<le> sk \<and> (can_fetch c \<longrightarrow> sk = n)
                    \<and> X st' = Inr (st'\<lparr>probes := probes st' @ ps,
                                       total_skipped := total_skipped st' + sk,
                                       total_probed := total_probed st' + k,
                                       total_not_found := total_not_found st' + nf\<rparr>)))))"

definition reruns_clean :: "card \<Rightarrow> string \<Rightarrow> (dl_state \<Rightarrow> error + dl_state) \<Rightarrow> storage \<Rightarrow> bool" where
  "reruns_clean c output_dir X sto =
     (\<forall>st'. covers c output_dir sto (fs st') \<longrightarrow>
        (\<exists>st''. X st' = Inr st'' \<and> fs st'' = fs st'
           \<and> total_downloaded st'' = total_downloaded st'))"

text \<open>
  After a record day has been processed, it can be processed again, with any grouping
  that holds for that day no session the first grouping did not hold.
\<close>

definition day_reruns_clean :: "card \<Rightarrow> string \<Rightarrow> (string \<times> session list) list \<Rightarrow> string
    \<Rightarrow> storage \<Rightarrow> bool" where
  "day_reruns_clean c a by_dir d sto =
     (\<forall>by_dir2. set (by_dir_get by_dir2 d) \<subseteq> set (by_dir_get by_dir d)
        \<longrightarrow> reruns_clean c a (process_date c a by_dir2 d) sto)"

definition confirmed_file :: "card \<Rightarrow> string \<Rightarrow> string \<Rightarrow> string \<Rightarrow> confirmed_file \<Rightarrow> bool" where
  "confirmed_file c dir_date file_date hhmm x =
     (case x of (ftype, ss, sz) \<Rightarrow>
        confirmed c (datalog_path dir_date file_date hhmm ss ftype ''.edf'') sz)"

definition loop_shape :: "card \<Rightarrow> string \<Rightarrow> string \<Rightarrow> string
    \<Rightarrow> (confirmed_file list \<times> dl_state \<Rightarrow> error + confirmed_file list \<times> dl_state) \<Rightarrow> bool" where
  "loop_shape c dd fd hhmm L =
     ((\<forall>files st. \<exists>e. L (files, st) = Inl e)
      \<or> (\<exists>extra ps k. (\<forall>x \<in> set extra. confirmed_file c dd fd hhmm x)
           \<and> (\<forall>files st. L (files, st)
                 = Inr (files @ extra,
                        st\<lparr>probes := probes st @ ps, total_probed := total_probed st + k\<rparr>))))"

text \<open>
  Devices for the examples. \<open>sized_card files\<close> holds each listed URL: HEAD reports the
  first size, GET serves a body of the second. \<open>refusing_card\<close> answers HEAD like
  \<open>full_body_card\<close> and fails every GET.
\<close>

definition sized_card :: "(string \<times> nat \<times> nat) list \<Rightarrow> card" where
  "sized_card files =
     \<lparr>base_url = ''http://192.168.4.1'',
      http_head = (\<lambda>url. case map_of files url of
         None \<Rightarrow> HeadReply [''Content-Type'' \<mapsto> ''text/html'']
       | Some (n, m) \<Rightarrow> HeadReply [''Content-Type'' \<mapsto> ''text/plain'',
                                    ''Content-Length'' \<mapsto> string_of_nat n]),
      http_get = (\<lambda>url. case map_of files url of
         None \<Rightarrow> GetReply [''Content-Type'' \<mapsto> ''text/html''] [] False
       | Some (n, m) \<Rightarrow>
           GetReply [''Content-Type'' \<mapsto> ''text/plain''] (replicate m CHR ''x'') False)\<rparr>"

definition full_body_card :: card where
  "full_body_card = sized_card
     [(''http://192.168.4.1/DATALOG/20240110'', 0, 0),
      (''http://192.168.4.1/DATALOG/20240110/20240111_100000_BRP.edf'', 100, 100)]"

definition short_body_card :: card where
  "short_body_card = sized_card
     [(''http://192.168.4.1/DATALOG/20240110'', 0, 0),
      (''http://192.168.4.1/DATALOG/20240110/20240111_100000_BRP.edf'', 100, 90)]"

definition refusing_card :: card where
  "refusing_card = full_body_card\<lparr>http_get := (\<lambda>url. GetFailed)\<rparr>"

text \<open>
  Two runs of \<open>download_datalog\<close> with \<open>--days 7\<close>, the default: the first on empty
  storage, the second on the storage the first left, at the same time of the clock
  (\<open>second_run\<close>) or eight days later (\<open>later_run\<close>).
\<close>

definition example_now :: datetime where
  "example_now = \<lparr>dt_year = 2024, dt_month = 1, dt_day = 12,
                    dt_hour = 8, dt_minute = 0, dt_second = 0\<rparr>"

definition later_now :: datetime where
  "later_now = \<lparr>dt_year = 2024, dt_month = 1, dt_day = 20,
                  dt_hour = 8, dt_minute = 0, dt_second = 0\<rparr>"

definition first_run :: "card \<Rightarrow> error + dl_state" where
  "first_run c = download_datalog c [example_session] ''out'' example_now (Some 7) Map.empty"

definition second_run :: "card \<Rightarrow> error + dl_state" where
  "second_run c =
     download_datalog c [example_session] ''out'' example_now (Some 7)
       (fs (projr (first_run c)))"

definition later_run :: "card \<Rightarrow> error + dl_state" where
  "later_run c =
     download_datalog c [example_session] ''out'' later_now (Some 7)
       (fs (projr (first_run c)))"

section \<open>The session extractor: proofs\<close>

lemma bindE_Inr: "bindE m k = Inr y \<longleftrightarrow> (\<exists>x. m = Inr x \<and> k x = Inr y)"
  by (cases m) (simp_all add: bindE_def)

lemma bindE_Inl: "bindE m k = Inl e \<longleftrightarrow> (m = Inl e \<or> (\<exists>x. m = Inr x \<and> k x = Inl e))"
  by (cases m) (simp_all add: bindE_def)

lemma length_unpack_h: "length (unpack_h bs) = length bs div 2"
  by (induction bs rule: unpack_h.induct) simp_all

lemma read_shorts_Inr:
  assumes "read_shorts f pos n = Inr vs"
  shows "vs = samples_at f pos n" and "length vs = nat n"
proof -
  from assms have n: "0 \<le> n" and len: "int (length (f_read f (nat pos) (nat (n * 2)))) = n * 2"
    and vs: "vs = unpack_h (f_read f (nat pos) (nat (n * 2)))"
    by (auto simp: read_shorts_def Let_def split: if_splits)
  show "vs = samples_at f pos n" using vs by (simp add: samples_at_def)
  from len have "length (f_read f (nat pos) (nat (n * 2))) = nat n * 2" using n by linarith
  then show "length vs = nat n" using vs by (simp add: length_unpack_h)
qed

lemma index_pairs_zip:
  "map (\<lambda>i. (xs ! i, ys ! i)) [0..<min (length xs) (length ys)] = zip xs ys"
  by (rule nth_equalityI) simp_all

lemma pair_loop_all2:
  "pair_loop rd noon ons offs idxs = Inr ss \<Longrightarrow>
   list_all2 (\<lambda>s p. case p of (on, off) \<Rightarrow> record_date s = strftime_Ymd rd
        \<and> datetime_add noon 0 (on * 60) = Inr (start_time s) \<and> duration_min s = off - on)
     ss (filter valid_pair (map (\<lambda>i. (ons ! i, offs ! i)) idxs))"
proof (induction idxs arbitrary: ss)
  case Nil
  then show ?case by simp
next
  case (Cons i rest)
  show ?case
  proof (cases "valid_pair (ons ! i, offs ! i)")
    case False
    then have "pair_loop rd noon ons offs (i # rest) = pair_loop rd noon ons offs rest"
      by (auto simp: valid_pair_def Let_def)
    with Cons False show ?thesis by simp
  next
    case True
    then have eq: "pair_loop rd noon ons offs (i # rest) =
        bindE (datetime_add noon 0 (ons ! i * 60)) (\<lambda>session_start.
        bindE (pair_loop rd noon ons offs rest) (\<lambda>more.
          Inr (\<lparr>record_date = strftime_Ymd rd, start_time = session_start,
                duration_min = offs ! i - ons ! i\<rparr> # more)))"
      by (auto simp: valid_pair_def Let_def)
    from Cons.prems obtain st more where
      st: "datetime_add noon 0 (ons ! i * 60) = Inr st" and
      more: "pair_loop rd noon ons offs rest = Inr more" and
      ss: "ss = \<lparr>record_date = strftime_Ymd rd, start_time = st,
                 duration_min = offs ! i - ons ! i\<rparr> # more"
      unfolding eq by (auto simp: bindE_Inr)
    from Cons.IH [OF more] True st ss show ?thesis by simp
  qed
qed

lemma record_loop_all2:
  "record_loop f l idxs = Inr ss \<Longrightarrow> list_all2 (made_from l) ss (valid_pairs_of f l idxs)"
proof (induction idxs arbitrary: ss)
  case Nil
  then show ?case by (simp add: valid_pairs_of_def)
next
  case (Cons i rest)
  from Cons.prems obtain d ons offs found more where
    d: "record_day l i = Inr d" and
    ons: "read_maskon f l i = Inr ons" and
    offs: "read_maskoff f l i = Inr offs" and
    found: "pair_loop d (noon_of d) ons offs
              [0..<nat (min (maskon_nsamples l) (maskoff_nsamples l))] = Inr found" and
    more: "record_loop f l rest = Inr more" and
    ss: "ss = found @ more"
    by (auto simp: bindE_Inr)
  have ons_eq: "ons = maskon_vals f l i" and ons_len: "length ons = nat (maskon_nsamples l)"
    using read_shorts_Inr [OF ons [unfolded read_maskon_def]] by (simp_all add: maskon_vals_def)
  have offs_eq: "offs = maskoff_vals f l i" and offs_len: "length offs = nat (maskoff_nsamples l)"
    using read_shorts_Inr [OF offs [unfolded read_maskoff_def]] by (simp_all add: maskoff_vals_def)
  have idx: "nat (min (maskon_nsamples l) (maskoff_nsamples l)) = min (length ons) (length offs)"
    using ons_len offs_len by (auto simp: min_def)
  have pairs: "map (\<lambda>k. (ons ! k, offs ! k))
                 [0..<nat (min (maskon_nsamples l) (maskoff_nsamples l))] = marker_pairs f l i"
    unfolding idx index_pairs_zip by (simp add: marker_pairs_def ons_eq offs_eq)
  have "list_all2 (made_from l) found (map (Pair i) (filter valid_pair (marker_pairs f l i)))"
    using pair_loop_all2 [OF found] d unfolding pairs
    by (simp add: list_all2_map2 made_from_def case_prod_unfold)
  moreover have "list_all2 (made_from l) more (valid_pairs_of f l rest)"
    by (rule Cons.IH [OF more])
  ultimately show ?case
    unfolding ss by (simp add: valid_pairs_of_def list_all2_appendI)
qed

lemma parse_str_edf_loop:
  assumes "read_header f = Inr h" and "read_layout f h = Inr l"
  shows "parse_str_edf f = record_loop f l [0..<nat (num_records h)]"
  using assms by (simp add: parse_str_edf_def bindE_def)

lemma example_read_header: "read_header example_file = Inr example_header"
  by code_simp

lemma example_read_layout: "read_layout example_file example_header = Inr example_layout"
  by code_simp

lemma example_pairs:
  "marker_pairs example_file example_layout 0 = [(1320, 1400), (0, 0)]"
  "marker_pairs example_file example_layout 1 = [(30, 100), (200, 150)]"
  "marker_pairs example_file example_layout (Suc 0) = [(30, 100), (200, 150)]"
  by code_simp+

lemma example_loop: "record_loop example_file example_layout [0, 1] = Inr example_sessions"
  by code_simp

lemma unlabelled_read_header: "read_header unlabelled_file = Inr (example_header\<lparr>num_records := 0\<rparr>)"
  by code_simp

lemma unlabelled_read_signals:
  "read_samples_per_record unlabelled_file 2 = Inr [2, 2]"
  "read_labels unlabelled_file 2 = Inr [''Press'', ''Leak'']"
  by code_simp+


lemma read_layout_start:
  "read_layout f h = Inr l \<Longrightarrow> l_start_dt l = start_dt h \<and> l_header_bytes l = header_bytes h"
proof -
  assume a: "read_layout f h = Inr l"
  then obtain spr labels where
    rest: "(case find_masks (enumerate 0 labels) (None, None) of
         (Some maskon_idx, Some maskoff_idx) \<Rightarrow>
           Inr \<lparr>l_header_bytes = header_bytes h,
                l_start_dt = start_dt h,
                total_samples = sum_list spr,
                maskon_sample_offset = sum_list (take maskon_idx spr),
                maskoff_sample_offset = sum_list (take maskoff_idx spr),
                maskon_nsamples = spr ! maskon_idx,
                maskoff_nsamples = spr ! maskoff_idx\<rparr>
       | _ \<Rightarrow> Inl ValueError_mask) = Inr l"
    unfolding read_layout_def bindE_Inr by blast
  obtain a b where ab: "find_masks (enumerate 0 labels) (None, None) = (a, b)"
    by (cases "find_masks (enumerate 0 labels) (None, None)")
  show ?thesis
    using rest unfolding ab by (cases a; cases b) auto
qed

lemma made_from_D:
  assumes "made_from l s (i, on, off)"
  obtains d where "record_day l i = Inr d" and "record_date s = strftime_Ymd d"
    and "datetime_add (noon_of d) 0 (on * 60) = Inr (start_time s)"
    and "duration_min s = off - on"
  using assms by (cases "record_day l i") (simp_all add: made_from_def)

lemma valid_not_rejected: "valid_pair p \<longleftrightarrow> \<not> rejected_pair p"
  by (auto simp: valid_pair_def rejected_pair_def split: prod.splits)

lemma example_parse: "parse_str_edf example_file = Inr example_sessions"
proof -
  have "[0..<nat (num_records example_header)] = [0, 1]"
    by (simp add: example_header_def upt_rec)
  then show ?thesis
    using parse_str_edf_loop [OF example_read_header example_read_layout] example_loop by simp
qed



text \<open>
  Claim C2. A pair with on \<le> 0, off \<le> 0, on \<ge> 1440, off \<ge> 1440 or off \<le> on yields no
  record: the returned records correspond one to one to the pairs that are left once
  every such pair is removed, and so every returned record has \<open>duration_min > 0\<close>.
\<close>

theorem parse_str_edf_rejects_invalid_pairs:
  assumes "read_header f = Inr h" and "read_layout f h = Inr l" and "parse_str_edf f = Inr ss"
  shows "list_all2 (made_from l) ss
           (concat (map (\<lambda>i. map (Pair i) (filter (\<lambda>p. \<not> rejected_pair p) (marker_pairs f l i)))
              [0..<nat (num_records h)]))
       \<and> (\<forall>s \<in> set ss. 0 < duration_min s)"
proof -
  have loop: "record_loop f l [0..<nat (num_records h)] = Inr ss"
    using parse_str_edf_loop [OF assms(1,2)] assms(3) by simp
  have rel: "list_all2 (made_from l) ss (valid_pairs_of f l [0..<nat (num_records h)])"
    by (rule record_loop_all2 [OF loop])
  have same: "valid_pair = (\<lambda>p. \<not> rejected_pair p)"
    by (rule ext) (rule valid_not_rejected)
  have first: "list_all2 (made_from l) ss
           (concat (map (\<lambda>i. map (Pair i) (filter (\<lambda>p. \<not> rejected_pair p) (marker_pairs f l i)))
              [0..<nat (num_records h)]))"
    using rel unfolding valid_pairs_of_def same .
  have "0 < duration_min s" if "s \<in> set ss" for s
  proof -
    from that obtain k where k: "k < length ss" and s: "s = ss ! k"
      by (auto simp: in_set_conv_nth)
    let ?x = "valid_pairs_of f l [0..<nat (num_records h)] ! k"
    have m: "made_from l s ?x"
      using rel k s by (simp add: list_all2_conv_all_nth)
    have "?x \<in> set (valid_pairs_of f l [0..<nat (num_records h)])"
      using k list_all2_lengthD [OF rel] by simp
    then have "valid_pair (snd ?x)"
      by (auto simp: valid_pairs_of_def)
    with m show ?thesis
      by (cases ?x) (auto simp: valid_pair_def elim: made_from_D)
  qed
  with first show ?thesis by blast
qed

theorem parse_str_edf_rejects_invalid_pairs_witness:
  "read_header example_file = Inr example_header
   \<and> read_layout example_file example_header = Inr example_layout
   \<and> parse_str_edf example_file = Inr example_sessions
   \<and> marker_pairs example_file example_layout 0 = [(1320, 1400), (0, 0)]
   \<and> marker_pairs example_file example_layout 1 = [(30, 100), (200, 150)]
   \<and> rejected_pair (0, 0) \<and> rejected_pair (200, 150)
   \<and> list_all2 (made_from example_layout) example_sessions [(0, 1320, 1400), (1, 30, 100)]
   \<and> list_all (\<lambda>s. 0 < duration_min s) example_sessions"
proof -
  have idx: "[0..<nat (num_records example_header)] = [0, 1]"
    by (simp add: example_header_def upt_rec)
  have kept: "concat (map (\<lambda>i. map (Pair i)
        (filter (\<lambda>p. \<not> rejected_pair p) (marker_pairs example_file example_layout i)))
        [0..<nat (num_records example_header)]) = [(0, 1320, 1400), (1, 30, 100)]"
    unfolding idx
    by (simp add: example_pairs rejected_pair_def)
  have rej: "rejected_pair (0, 0) \<and> rejected_pair (200, 150)"
    by (simp add: rejected_pair_def)
  show ?thesis
    using parse_str_edf_rejects_invalid_pairs
      [OF example_read_header example_read_layout example_parse] rej
    unfolding kept
    by (simp add: example_pairs example_read_header example_read_layout example_parse
      list_all_iff)
qed

lemma example_read_signals:
  "read_samples_per_record example_file 2 = Inr [2, 2]"
  "read_labels example_file 2 = Inr [''MaskOn'', ''MaskOff'']"
  by code_simp+

lemma find_masks_None:
  "find_masks (enumerate n labels) (a, b) = (x, y) \<Longrightarrow>
     (x = None \<longleftrightarrow> a = None \<and> ''MaskOn'' \<notin> set labels)
   \<and> (y = None \<longleftrightarrow> b = None \<and> ''MaskOff'' \<notin> set labels)"
proof (induction labels arbitrary: n a b)
  case Nil
  then show ?case by simp
next
  case (Cons label rest)
  show ?case
  proof (cases "label = ''MaskOn''")
    case True
    with Cons.prems have "find_masks (enumerate (Suc n) rest) (Some n, b) = (x, y)" by simp
    from Cons.IH [OF this] True show ?thesis by simp
  next
    case False
    show ?thesis
    proof (cases "label = ''MaskOff''")
      case True
      with Cons.prems have "find_masks (enumerate (Suc n) rest) (a, Some n) = (x, y)" by simp
      from Cons.IH [OF this] True show ?thesis by simp
    next
      case F2: False
      with False Cons.prems have "find_masks (enumerate (Suc n) rest) (a, b) = (x, y)" by simp
      from Cons.IH [OF this] False F2 show ?thesis by auto
    qed
  qed
qed

lemma datetime_add_not_mask: "datetime_add dt days secs \<noteq> Inl ValueError_mask"
  by (simp add: datetime_add_def Let_def split: prod.splits)

lemma read_shorts_not_mask: "read_shorts f pos n \<noteq> Inl ValueError_mask"
  by (simp add: read_shorts_def Let_def)

lemma pair_loop_not_mask: "pair_loop rd noon ons offs idxs \<noteq> Inl ValueError_mask"
  by (induction idxs) (auto simp: Let_def bindE_Inl datetime_add_not_mask)

lemma record_loop_not_mask: "record_loop f l idxs \<noteq> Inl ValueError_mask"
  by (induction idxs)
    (auto simp: bindE_Inl record_day_def read_maskon_def read_maskoff_def
       datetime_add_not_mask read_shorts_not_mask pair_loop_not_mask)

lemma read_layout_mask:
  assumes "read_samples_per_record f (num_signals h) = Inr spr"
    and "read_labels f (num_signals h) = Inr labels"
  shows "(\<exists>l. read_layout f h = Inr l) \<or> read_layout f h = Inl ValueError_mask"
    and "read_layout f h = Inl ValueError_mask
         \<longleftrightarrow> ''MaskOn'' \<notin> set labels \<or> ''MaskOff'' \<notin> set labels"
proof -
  obtain x y where xy: "find_masks (enumerate 0 labels) (None, None) = (x, y)"
    by (cases "find_masks (enumerate 0 labels) (None, None)")
  from find_masks_None [OF xy]
  have x: "x = None \<longleftrightarrow> ''MaskOn'' \<notin> set labels" and y: "y = None \<longleftrightarrow> ''MaskOff'' \<notin> set labels"
    by simp_all
  show "(\<exists>l. read_layout f h = Inr l) \<or> read_layout f h = Inl ValueError_mask"
    using assms xy by (cases x; cases y) (simp_all add: read_layout_def bindE_def)
  show "read_layout f h = Inl ValueError_mask
         \<longleftrightarrow> ''MaskOn'' \<notin> set labels \<or> ''MaskOff'' \<notin> set labels"
    using assms xy x y by (cases x; cases y) (simp_all add: read_layout_def bindE_def)
qed

text \<open>
  Claim C7. Once the header, the samples-per-record fields and the labels are read:
  when neither \<open>MaskOn\<close> nor \<open>MaskOff\<close> is among the labels, \<open>parse_str_edf\<close>
  raises its \<open>ValueError\<close> and returns no session; when both are among the labels it
  does not raise this error. (It raises it exactly when at least one of the two is missing.)
\<close>

theorem parse_str_edf_missing_mask_channels:
  assumes "read_header f = Inr h"
    and "read_samples_per_record f (num_signals h) = Inr spr"
    and "read_labels f (num_signals h) = Inr labels"
  shows "(''MaskOn'' \<notin> set labels \<and> ''MaskOff'' \<notin> set labels
            \<longrightarrow> parse_str_edf f = Inl ValueError_mask)
       \<and> (''MaskOn'' \<in> set labels \<and> ''MaskOff'' \<in> set labels
            \<longrightarrow> parse_str_edf f \<noteq> Inl ValueError_mask)
       \<and> (parse_str_edf f = Inl ValueError_mask
            \<longleftrightarrow> ''MaskOn'' \<notin> set labels \<or> ''MaskOff'' \<notin> set labels)"
proof -
  have iff: "parse_str_edf f = Inl ValueError_mask
      \<longleftrightarrow> ''MaskOn'' \<notin> set labels \<or> ''MaskOff'' \<notin> set labels"
  proof (cases "read_layout f h")
    case (Inl e)
    then have "parse_str_edf f = Inl e"
      using assms(1) by (simp add: parse_str_edf_def bindE_def)
    moreover have "e = ValueError_mask"
      using read_layout_mask(1) [OF assms(2,3)] Inl by simp
    ultimately show ?thesis
      using read_layout_mask(2) [OF assms(2,3)] Inl by simp
  next
    case (Inr l)
    then have "parse_str_edf f \<noteq> Inl ValueError_mask"
      using parse_str_edf_loop [OF assms(1) Inr] record_loop_not_mask by simp
    then show ?thesis
      using read_layout_mask(2) [OF assms(2,3)] Inr by simp
  qed
  then show ?thesis by blast
qed

theorem parse_str_edf_missing_mask_channels_witness:
  "read_header unlabelled_file = Inr (example_header\<lparr>num_records := 0\<rparr>)
   \<and> read_labels unlabelled_file 2 = Inr [''Press'', ''Leak'']
   \<and> parse_str_edf unlabelled_file = Inl ValueError_mask
   \<and> read_header example_file = Inr example_header
   \<and> read_labels example_file 2 = Inr [''MaskOn'', ''MaskOff'']
   \<and> parse_str_edf example_file \<noteq> Inl ValueError_mask"
proof -
  let ?h0 = "example_header\<lparr>num_records := 0\<rparr>"
  have a1: "read_samples_per_record unlabelled_file (num_signals ?h0) = Inr [2, 2]"
    and a2: "read_labels unlabelled_file (num_signals ?h0) = Inr [''Press'', ''Leak'']"
    by (simp_all add: example_header_def unlabelled_read_signals)
  have b1: "read_samples_per_record example_file (num_signals example_header) = Inr [2, 2]"
    and b2: "read_labels example_file (num_signals example_header) = Inr [''MaskOn'', ''MaskOff'']"
    by (simp_all add: example_header_def example_read_signals)
  show ?thesis
    using parse_str_edf_missing_mask_channels [OF unlabelled_read_header a1 a2]
      parse_str_edf_missing_mask_channels [OF example_read_header b1 b2]
    by (simp add: unlabelled_read_header unlabelled_read_signals example_read_header
        example_read_signals)
qed

lemma read_header_date:
  assumes "read_header f = Inr h"
  obtains date_str time_str where
    "str_field (slice (f_read f 0 256) 168 176) = Inr date_str"
    "str_field (slice (f_read f 0 256) 176 184) = Inr time_str"
    "parse_start_dt date_str time_str = Inr (start_dt h)"
proof -
  from assms obtain nr ns hb date_str time_str dt where
    d: "str_field (slice (f_read f 0 256) 168 176) = Inr date_str" and
    t: "str_field (slice (f_read f 0 256) 176 184) = Inr time_str" and
    p: "parse_start_dt date_str time_str = Inr dt" and
    h: "h = \<lparr>num_records = nr, num_signals = ns, header_bytes = hb, start_dt = dt\<rparr>"
    unfolding read_header_def Let_def bindE_Inr by auto
  from h have "start_dt h = dt" by simp
  with d t p that show ?thesis by simp
qed

lemma parse_start_dt_year:
  assumes "parse_start_dt date_str time_str = Inr dt"
  obtains dd mm yy y where "split_on CHR ''.'' date_str = [dd, mm, yy]"
    and "py_int yy = Inr y" and "dt_year dt = header_year y"
proof -
  from assms obtain dd mm yy where s: "split_on CHR ''.'' date_str = [dd, mm, yy]"
    by (auto simp: parse_start_dt_def split: list.splits)
  from assms s obtain hh mi ss where t: "split_on CHR ''.'' time_str = [hh, mi, ss]"
    by (auto simp: parse_start_dt_def split: list.splits)
  from assms s t obtain y m d h i sec where y: "py_int yy = Inr y"
    and n: "datetime_new (header_year y) m d h i sec = Inr dt"
    by (auto simp: parse_start_dt_def bindE_Inr)
  from n have "dt_year dt = header_year y"
    by (auto simp: datetime_new_def split: if_splits)
  with s y that show ?thesis by blast
qed

lemma example_date_field:
  "str_field (slice (f_read example_file 0 256) 168 176) = Inr ''10.01.24''"
  "str_field (slice (f_read year_85_file 0 256) 168 176) = Inr ''31.12.85''"
  by code_simp+

lemma year_85_read_header:
  "read_header year_85_file =
     Inr \<lparr>num_records = 0, num_signals = 0, header_bytes = 256,
          start_dt = \<lparr>dt_year = 1985, dt_month = 12, dt_day = 31,
                      dt_hour = 23, dt_minute = 59, dt_second = 59\<rparr>\<rparr>"
  by code_simp

text \<open>
  Claim C9. When \<open>parse_str_edf\<close> reads the header, the year of the creation date is
  decoded from the third part yy of the date field (bytes 168 to 176 of the file, split at
  the dots): it is 2000 + yy when yy is below 85 and 1900 + yy otherwise. This is the year
  of the start date that the loop over the records counts the record days from.
\<close>

theorem header_year_pivot:
  assumes "read_header f = Inr h"
  shows "\<exists>date_str dd mm yy y.
           str_field (slice (f_read f 0 256) 168 176) = Inr date_str
         \<and> split_on CHR ''.'' date_str = [dd, mm, yy]
         \<and> py_int yy = Inr y
         \<and> dt_year (start_dt h) = (if y < 85 then 2000 + y else 1900 + y)
         \<and> (\<forall>l. read_layout f h = Inr l
               \<longrightarrow> dt_year (l_start_dt l) = (if y < 85 then 2000 + y else 1900 + y))"
proof -
  from read_header_date [OF assms] obtain date_str time_str where
    d: "str_field (slice (f_read f 0 256) 168 176) = Inr date_str" and
    p: "parse_start_dt date_str time_str = Inr (start_dt h)"
    by blast
  from parse_start_dt_year [OF p] obtain dd mm yy y where
    s: "split_on CHR ''.'' date_str = [dd, mm, yy]" and y: "py_int yy = Inr y" and
    yr: "dt_year (start_dt h) = header_year y"
    by blast
  have "\<forall>l. read_layout f h = Inr l \<longrightarrow> dt_year (l_start_dt l) = header_year y"
    using read_layout_start yr by auto
  with d s y yr show ?thesis
    unfolding header_year_def by blast
qed

theorem header_year_pivot_witness:
  "read_header example_file = Inr example_header
   \<and> str_field (slice (f_read example_file 0 256) 168 176) = Inr ''10.01.24''
   \<and> dt_year (start_dt example_header) = 2000 + 24
   \<and> read_layout example_file example_header = Inr example_layout
   \<and> dt_year (l_start_dt example_layout) = 2000 + 24
   \<and> str_field (slice (f_read year_85_file 0 256) 168 176) = Inr ''31.12.85''
   \<and> dt_year (start_dt (projr (read_header year_85_file))) = 1900 + 85"
proof -
  have i1: "py_int ''24'' = Inr 24" and i2: "py_int ''85'' = Inr 85" by code_simp+
  from header_year_pivot [OF example_read_header] obtain ds dd mm yy y where
    a: "str_field (slice (f_read example_file 0 256) 168 176) = Inr ds" and
    b: "split_on CHR ''.'' ds = [dd, mm, yy]" and c: "py_int yy = Inr y" and
    d: "dt_year (start_dt example_header) = (if y < 85 then 2000 + y else 1900 + y)" and
    e: "\<forall>l. read_layout example_file example_header = Inr l
          \<longrightarrow> dt_year (l_start_dt l) = (if y < 85 then 2000 + y else 1900 + y)"
    by blast
  from a have "ds = ''10.01.24''" by (simp add: example_date_field)
  with b have "yy = ''24''" by simp
  with c i1 have y: "y = 24" by simp
  from header_year_pivot [OF year_85_read_header] obtain ds' dd' mm' yy' y' where
    a': "str_field (slice (f_read year_85_file 0 256) 168 176) = Inr ds'" and
    b': "split_on CHR ''.'' ds' = [dd', mm', yy']" and c': "py_int yy' = Inr y'" and
    d': "dt_year (start_dt \<lparr>num_records = 0, num_signals = 0, header_bytes = 256,
          start_dt = \<lparr>dt_year = 1985, dt_month = 12, dt_day = 31,
                      dt_hour = 23, dt_minute = 59, dt_second = 59\<rparr>\<rparr>)
           = (if y' < 85 then 2000 + y' else 1900 + y')"
    by blast
  from a' have "ds' = ''31.12.85''" by (simp add: example_date_field)
  with b' have "yy' = ''85''" by simp
  with c' i2 have y': "y' = 85" by simp
  show ?thesis
    using d e y d' y' example_read_header example_read_layout
    by (simp add: example_date_field year_85_read_header)
qed

lemma example_valid_pairs:
  "valid_pairs_of example_file example_layout [0..<nat (num_records example_header)]
      = [(0, 1320, 1400), (1, 30, 100)]"
proof -
  have idx: "[0..<nat (num_records example_header)] = [0, 1]"
    by (simp add: example_header_def upt_rec)
  show ?thesis
    unfolding idx by (simp add: valid_pairs_of_def example_pairs valid_pair_def)
qed

lemma spec_example_times:
  "datetime_add (noon_of \<lparr>dt_year = 2024, dt_month = 1, dt_day = 10,
        dt_hour = 0, dt_minute = 0, dt_second = 0\<rparr>) 0 (1320 * 60)
     = Inr \<lparr>dt_year = 2024, dt_month = 1, dt_day = 11,
             dt_hour = 10, dt_minute = 0, dt_second = 0\<rparr>"
  "datetime_add \<lparr>dt_year = 2024, dt_month = 1, dt_day = 10,
        dt_hour = 0, dt_minute = 0, dt_second = 0\<rparr> 1 0
     = Inr \<lparr>dt_year = 2024, dt_month = 1, dt_day = 11,
             dt_hour = 0, dt_minute = 0, dt_second = 0\<rparr>"
  "datetime_add (noon_of \<lparr>dt_year = 2024, dt_month = 1, dt_day = 11,
        dt_hour = 0, dt_minute = 0, dt_second = 0\<rparr>) 0 (30 * 60)
     = Inr \<lparr>dt_year = 2024, dt_month = 1, dt_day = 11,
             dt_hour = 12, dt_minute = 30, dt_second = 0\<rparr>"
  "strftime_Ymd \<lparr>dt_year = 2024, dt_month = 1, dt_day = 11,
        dt_hour = 0, dt_minute = 0, dt_second = 0\<rparr> = ''20240111''"
  by code_simp+

text \<open>
  Claim C3, as amended. For every record index i and every valid pair (on, off) of that
  record, the record produced has \<open>record_date\<close> equal to the creation date of the header
  plus i days, formatted YYYYMMDD, whatever the marker values, and \<open>start_time\<close> equal
  to 12:00:00 of that record day plus on minutes. With creation date 2024-01-10, record
  index 0 and on = 1320 give the start time 2024-01-11 10:00:00; record index 1 is the
  day 2024-01-11 (directory 20240111) and on = 30 gives the start time 2024-01-11 12:30:00.
\<close>

theorem parse_str_edf_record_date_and_start_time:
  assumes "read_header f = Inr h" and "read_layout f h = Inr l" and "parse_str_edf f = Inr ss"
  shows "list_all2
           (\<lambda>s x. case x of (rec_idx, on, off) \<Rightarrow>
              (case datetime_add (start_dt h) (int rec_idx) 0 of
                 Inl e \<Rightarrow> False
               | Inr day \<Rightarrow>
                   record_date s = strftime_Ymd day
                   \<and> datetime_add (day\<lparr>dt_hour := 12, dt_minute := 0, dt_second := 0\<rparr>)
                        0 (on * 60) = Inr (start_time s)))
           ss (valid_pairs_of f l [0..<nat (num_records h)])
       \<and> datetime_add (noon_of \<lparr>dt_year = 2024, dt_month = 1, dt_day = 10,
              dt_hour = 0, dt_minute = 0, dt_second = 0\<rparr>) 0 (1320 * 60)
           = Inr \<lparr>dt_year = 2024, dt_month = 1, dt_day = 11,
                   dt_hour = 10, dt_minute = 0, dt_second = 0\<rparr>
       \<and> datetime_add \<lparr>dt_year = 2024, dt_month = 1, dt_day = 10,
              dt_hour = 0, dt_minute = 0, dt_second = 0\<rparr> 1 0
           = Inr \<lparr>dt_year = 2024, dt_month = 1, dt_day = 11,
                   dt_hour = 0, dt_minute = 0, dt_second = 0\<rparr>
       \<and> datetime_add (noon_of \<lparr>dt_year = 2024, dt_month = 1, dt_day = 11,
              dt_hour = 0, dt_minute = 0, dt_second = 0\<rparr>) 0 (30 * 60)
           = Inr \<lparr>dt_year = 2024, dt_month = 1, dt_day = 11,
                   dt_hour = 12, dt_minute = 30, dt_second = 0\<rparr>"
proof -
  have loop: "record_loop f l [0..<nat (num_records h)] = Inr ss"
    using parse_str_edf_loop [OF assms(1,2)] assms(3) by simp
  have rel: "list_all2 (made_from l) ss (valid_pairs_of f l [0..<nat (num_records h)])"
    by (rule record_loop_all2 [OF loop])
  have start: "l_start_dt l = start_dt h"
    by (rule read_layout_start [OF assms(2), THEN conjunct1])
  have "list_all2
           (\<lambda>s x. case x of (rec_idx, on, off) \<Rightarrow>
              (case datetime_add (start_dt h) (int rec_idx) 0 of
                 Inl e \<Rightarrow> False
               | Inr day \<Rightarrow>
                   record_date s = strftime_Ymd day
                   \<and> datetime_add (day\<lparr>dt_hour := 12, dt_minute := 0, dt_second := 0\<rparr>)
                        0 (on * 60) = Inr (start_time s)))
           ss (valid_pairs_of f l [0..<nat (num_records h)])"
    using rel
  proof (rule list_all2_mono)
    fix s x
    assume m: "made_from l s x"
    obtain i on off where x: "x = (i, on, off)" by (cases x)
    from m [unfolded x] obtain d where "record_day l i = Inr d"
      and "record_date s = strftime_Ymd d"
      and "datetime_add (noon_of d) 0 (on * 60) = Inr (start_time s)"
      by (rule made_from_D)
    then show "case x of (rec_idx, on, off) \<Rightarrow>
              (case datetime_add (start_dt h) (int rec_idx) 0 of
                 Inl e \<Rightarrow> False
               | Inr day \<Rightarrow>
                   record_date s = strftime_Ymd day
                   \<and> datetime_add (day\<lparr>dt_hour := 12, dt_minute := 0, dt_second := 0\<rparr>)
                        0 (on * 60) = Inr (start_time s))"
      unfolding x by (simp add: record_day_def start noon_of_def)
  qed
  then show ?thesis
    using spec_example_times by simp
qed

theorem parse_str_edf_record_date_and_start_time_witness:
  "read_header example_file = Inr example_header
   \<and> read_layout example_file example_header = Inr example_layout
   \<and> parse_str_edf example_file = Inr example_sessions
   \<and> list_all2
           (\<lambda>s x. case x of (rec_idx, on, off) \<Rightarrow>
              (case datetime_add (start_dt example_header) (int rec_idx) 0 of
                 Inl e \<Rightarrow> False
               | Inr day \<Rightarrow>
                   record_date s = strftime_Ymd day
                   \<and> datetime_add (day\<lparr>dt_hour := 12, dt_minute := 0, dt_second := 0\<rparr>)
                        0 (on * 60) = Inr (start_time s)))
           example_sessions [(0, 1320, 1400 :: int), (1, 30, 100)]"
  using parse_str_edf_record_date_and_start_time
      [OF example_read_header example_read_layout example_parse, THEN conjunct1]
  unfolding example_valid_pairs
  by (simp add: example_read_header example_read_layout example_parse)

text \<open>
  The start times of claim C3 as first stated (2024-01-10 22:00:00 for record 0 with
  on = 1320, and 2024-01-12 00:30:00 in directory 20240112 for record 1 with on = 30) are
  not what the code computes: the markers count minutes from noon of the record day.
\<close>

theorem spec_example_start_times_counterexample:
  "parse_str_edf example_file = Inr example_sessions
   \<and> marker_pairs example_file example_layout 0 ! 0 = (1320, 1400)
   \<and> marker_pairs example_file example_layout 1 ! 0 = (30, 100)
   \<and> start_time (example_sessions ! 0)
       = \<lparr>dt_year = 2024, dt_month = 1, dt_day = 11, dt_hour = 10, dt_minute = 0, dt_second = 0\<rparr>
   \<and> start_time (example_sessions ! 0)
       \<noteq> \<lparr>dt_year = 2024, dt_month = 1, dt_day = 10, dt_hour = 22, dt_minute = 0, dt_second = 0\<rparr>
   \<and> start_time (example_sessions ! 1)
       = \<lparr>dt_year = 2024, dt_month = 1, dt_day = 11, dt_hour = 12, dt_minute = 30, dt_second = 0\<rparr>
   \<and> start_time (example_sessions ! 1)
       \<noteq> \<lparr>dt_year = 2024, dt_month = 1, dt_day = 12, dt_hour = 0, dt_minute = 30, dt_second = 0\<rparr>
   \<and> record_date (example_sessions ! 1) = ''20240111''
   \<and> record_date (example_sessions ! 1) \<noteq> ''20240112''"
  by (simp add: example_parse example_pairs example_sessions_def)

section \<open>Probing: proofs\<close>

lemma search_Nil [simp]:
  "search_result c p [] = Inr (None, 0)" "search_probes c p [] = []"
  by (simp_all add: search_result_def search_probes_def)

lemma search_Cons:
  "search_result c p (x # xs) =
     (if ends_search c (p x)
      then (case is_real_file c (p x) of Inl e \<Rightarrow> Inl e | Inr (exists, sz) \<Rightarrow> Inr (Some (fmt_d 2 x), sz))
      else search_result c p xs)"
  "search_probes c p (x # xs) = (if ends_search c (p x) then [p x] else p x # search_probes c p xs)"
  by (simp_all add: search_result_def search_probes_def)

lemma search_append:
  "search_result c p (xs @ ys) =
     (if \<exists>x \<in> set xs. ends_search c (p x) then search_result c p xs else search_result c p ys)"
  "search_probes c p (xs @ ys) =
     (if \<exists>x \<in> set xs. ends_search c (p x) then search_probes c p xs
      else map p xs @ search_probes c p ys)"
  by (induction xs) (simp_all add: search_Cons)

lemma ends_search_Inl: "is_real_file c p = Inl e \<Longrightarrow> ends_search c p"
  by (simp add: ends_search_def)

lemma ends_search_Inr: "is_real_file c p = Inr (ex, sz) \<Longrightarrow> ends_search c p = (ex \<and> sz > 0)"
  by (simp add: ends_search_def)

lemma scan_seconds_search:
  "scan_seconds c dir_date file_date hhmm ftype xs =
     (search_result c (seconds_path dir_date file_date hhmm ftype) xs,
      search_probes c (seconds_path dir_date file_date hhmm ftype) xs)"
proof (induction xs)
  case Nil
  show ?case by simp
next
  case (Cons x xs)
  let ?p = "seconds_path dir_date file_date hhmm ftype"
  have step: "scan_seconds c dir_date file_date hhmm ftype (x # xs) =
     (case is_real_file c (?p x) of
        Inl e \<Rightarrow> (Inl e, [?p x])
      | Inr (exists, sz) \<Rightarrow>
          if exists \<and> sz > 0 then (Inr (Some (fmt_d 2 x), sz), [?p x])
          else (case scan_seconds c dir_date file_date hhmm ftype xs of
                  (r, probed) \<Rightarrow> (r, ?p x # probed)))"
    by (auto simp: Let_def seconds_path_def split: sum.splits prod.splits)
  show ?case
  proof (cases "is_real_file c (?p x)")
    case (Inl e)
    then show ?thesis
      unfolding step by (simp add: search_Cons ends_search_Inl)
  next
    case (Inr r)
    obtain ex sz where r: "r = (ex, sz)" by (cases r)
    show ?thesis
      unfolding step Cons.IH using Inr r
      by (simp add: search_Cons ends_search_Inr)
  qed
qed

lemma near_candidates_search:
  "near_candidates c dir_date file_date hhmm ftype xs =
     (if \<exists>x \<in> set (filter in_seconds_range xs).
           ends_search c (seconds_path dir_date file_date hhmm ftype x)
      then Some (search_result c (seconds_path dir_date file_date hhmm ftype)
                   (filter in_seconds_range xs))
      else None,
      search_probes c (seconds_path dir_date file_date hhmm ftype) (filter in_seconds_range xs))"
proof (induction xs)
  case Nil
  show ?case by simp
next
  case (Cons x xs)
  let ?p = "seconds_path dir_date file_date hhmm ftype"
  show ?case
  proof (cases "in_seconds_range x")
    case False
    then have "x < 0 \<or> x \<ge> 60" by (auto simp: in_seconds_range_def)
    then have eq: "near_candidates c dir_date file_date hhmm ftype (x # xs)
        = near_candidates c dir_date file_date hhmm ftype xs" by simp
    show ?thesis unfolding eq Cons.IH using False by auto
  next
    case True
    then have rng: "\<not> (x < 0 \<or> x \<ge> 60)" by (auto simp: in_seconds_range_def)
    have step: "near_candidates c dir_date file_date hhmm ftype (x # xs) =
       (case is_real_file c (?p x) of
          Inl e \<Rightarrow> (Some (Inl e), [?p x])
        | Inr (exists, sz) \<Rightarrow>
            if exists \<and> sz > 0 then (Some (Inr (Some (fmt_d 2 x), sz)), [?p x])
            else (case near_candidates c dir_date file_date hhmm ftype xs of
                    (r, probed) \<Rightarrow> (r, ?p x # probed)))"
      using rng by (auto simp: Let_def seconds_path_def split: sum.splits prod.splits)
    show ?thesis
    proof (cases "is_real_file c (?p x)")
      case (Inl e)
      then show ?thesis
        unfolding step using True by (simp add: search_Cons ends_search_Inl)
    next
      case (Inr r)
      obtain ex sz where r: "r = (ex, sz)" by (cases r)
      show ?thesis
        unfolding step Cons.IH using Inr r True
        by (auto simp: search_Cons ends_search_Inr)
    qed
  qed
qed

lemma near_offsets_search:
  "near_offsets c dir_date file_date hhmm ftype ref offsets =
     (search_result c (seconds_path dir_date file_date hhmm ftype)
        (filter in_seconds_range
           (concat (map (\<lambda>k. if k = 0 then [ref + k] else [ref + k, ref - k]) offsets))),
      search_probes c (seconds_path dir_date file_date hhmm ftype)
        (filter in_seconds_range
           (concat (map (\<lambda>k. if k = 0 then [ref + k] else [ref + k, ref - k]) offsets))))"
proof (induction offsets)
  case Nil
  show ?case by simp
next
  case (Cons k ks)
  let ?cs = "if k = 0 then [ref + k] else [ref + k, ref - k]"
  have step: "near_offsets c dir_date file_date hhmm ftype ref (k # ks) =
     (case near_candidates c dir_date file_date hhmm ftype ?cs of
        (Some r, probed) \<Rightarrow> (r, probed)
      | (None, probed) \<Rightarrow>
          (case near_offsets c dir_date file_date hhmm ftype ref ks of
             (r, later) \<Rightarrow> (r, probed @ later)))"
    by (simp add: Let_def)
  show ?case
  proof (cases "\<exists>x \<in> set (filter in_seconds_range ?cs).
           ends_search c (seconds_path dir_date file_date hhmm ftype x)")
    case True
    then show ?thesis
      unfolding step near_candidates_search
      by (simp add: search_append del: near_offsets.simps)
  next
    case False
    have none: "\<forall>x \<in> set (filter in_seconds_range ?cs).
        \<not> ends_search c (seconds_path dir_date file_date hhmm ftype x)"
      using False by blast
    have tw: "search_probes c (seconds_path dir_date file_date hhmm ftype)
        (filter in_seconds_range ?cs)
        = map (seconds_path dir_date file_date hhmm ftype) (filter in_seconds_range ?cs)"
      using search_append(2) [of c "seconds_path dir_date file_date hhmm ftype"
          "filter in_seconds_range ?cs" "[]"] none
      by simp
    show ?thesis
      unfolding step near_candidates_search
      using False tw Cons.IH
      by (simp add: search_append del: near_offsets.simps)
  qed
qed

lemma near_order_offsets:
  assumes "0 \<le> w"
  shows "concat (map (\<lambda>k. if k = 0 then [r + k] else [r + k, r - k]) [0..w]) = near_order r w"
proof -
  have split: "[0..w] = 0 # [1..w]" using assms by (simp add: upto_rec1)
  have same: "map (\<lambda>k. if k = 0 then [r + k] else [r + k, r - k]) [1..w]
      = map (\<lambda>k. [r + k, r - k]) [1..w]"
    by (rule map_cong) auto
  have "concat (map (\<lambda>k. if k = 0 then [r + k] else [r + k, r - k]) [0..w])
      = [r + 0] @ concat (map (\<lambda>k. if k = 0 then [r + k] else [r + k, r - k]) [1..w])"
    unfolding split by simp
  also have "\<dots> = r # concat (map (\<lambda>k. [r + k, r - k]) [1..w])"
    unfolding same by simp
  finally show ?thesis by (simp add: near_order_def)
qed

lemma find_seconds_near_search:
  assumes "py_int reference_ss = Inr r" and "0 \<le> window"
  shows "find_seconds_near c dir_date file_date hhmm ftype reference_ss window =
     (search_result c (seconds_path dir_date file_date hhmm ftype)
        (filter in_seconds_range (near_order r window)),
      search_probes c (seconds_path dir_date file_date hhmm ftype)
        (filter in_seconds_range (near_order r window)))"
  using assms
  by (simp add: find_seconds_near_def near_offsets_search near_order_offsets)

lemma search_result_None:
  "search_result c p xs = Inr (None, sz) \<Longrightarrow> search_probes c p xs = map p xs \<and> sz = 0"
proof (induction xs)
  case Nil
  then show ?case by simp
next
  case (Cons x xs)
  show ?case
  proof (cases "ends_search c (p x)")
    case True
    with Cons.prems show ?thesis
      by (auto simp: search_Cons split: sum.splits prod.splits)
  next
    case False
    with Cons show ?thesis by (simp add: search_Cons)
  qed
qed

text \<open>
  Claim C4. \<open>find_seconds_near\<close> with reference seconds r and window w probes the
  candidates r, r+1, r-1, r+2, r-2, ..., r+w, r-w in this order, leaving out every candidate
  outside 0..59, and returns the first candidate whose probe reports a file of nonzero
  size. With reference 37, window 15 and a card that has a file only at seconds 45, it
  probes 37, 38, 36, 39, 35, ..., 45 and returns 45.
\<close>

theorem find_seconds_near_probe_order:
  assumes "py_int reference_ss = Inr r" and "0 \<le> window"
  shows "find_seconds_near c dir_date file_date hhmm ftype reference_ss window =
     (search_result c (seconds_path dir_date file_date hhmm ftype)
        (filter in_seconds_range (near_order r window)),
      search_probes c (seconds_path dir_date file_date hhmm ftype)
        (filter in_seconds_range (near_order r window)))"
  using assms by (rule find_seconds_near_search)

lemma near_order_37:
  "filter in_seconds_range (near_order 37 15) =
     [37, 38, 36, 39, 35, 40, 34, 41, 33, 42, 32, 43, 31, 44, 30, 45, 29, 46, 28, 47, 27,
      48, 26, 49, 25, 50, 24, 51, 23, 52, 22]"
  by code_simp

lemma pld_at_45_search:
  "search_result pld_at_45 (seconds_path ''20240110'' ''20240111'' ''1000'' ''PLD'')
     [37, 38, 36, 39, 35, 40, 34, 41, 33, 42, 32, 43, 31, 44, 30, 45, 29, 46, 28, 47, 27,
      48, 26, 49, 25, 50, 24, 51, 23, 52, 22] = Inr (Some ''45'', 1000)"
  "search_probes pld_at_45 (seconds_path ''20240110'' ''20240111'' ''1000'' ''PLD'')
     [37, 38, 36, 39, 35, 40, 34, 41, 33, 42, 32, 43, 31, 44, 30, 45, 29, 46, 28, 47, 27,
      48, 26, 49, 25, 50, 24, 51, 23, 52, 22]
   = map (\<lambda>ss. ''DATALOG/20240110/20240111_1000'' @ ss @ ''_PLD.edf'')
       [''37'', ''38'', ''36'', ''39'', ''35'', ''40'', ''34'', ''41'', ''33'', ''42'', ''32'',
        ''43'', ''31'', ''44'', ''30'', ''45'']"
  by code_simp+

theorem find_seconds_near_probe_order_witness:
  "py_int ''37'' = Inr 37 \<and> (0::int) \<le> 15
   \<and> find_seconds_near pld_at_45 ''20240110'' ''20240111'' ''1000'' ''PLD'' ''37'' 15 =
       (Inr (Some ''45'', 1000),
        map (\<lambda>ss. ''DATALOG/20240110/20240111_1000'' @ ss @ ''_PLD.edf'')
          [''37'', ''38'', ''36'', ''39'', ''35'', ''40'', ''34'', ''41'', ''33'', ''42'', ''32'',
           ''43'', ''31'', ''44'', ''30'', ''45''])"
proof -
  have a: "py_int ''37'' = Inr 37" by code_simp
  have b: "(0::int) \<le> 15" by simp
  show ?thesis
    using find_seconds_near_probe_order [OF a b, of pld_at_45 "''20240110''" "''20240111''"
        "''1000''" "''PLD''"] a
    unfolding near_order_37 pld_at_45_search by simp
qed

lemma find_seconds_for_type_search:
  "find_seconds_for_type c dir_date file_date hhmm ftype =
     (search_result c (seconds_path dir_date file_date hhmm ftype) [0..59],
      search_probes c (seconds_path dir_date file_date hhmm ftype) [0..59])"
  by (simp add: find_seconds_for_type_def scan_seconds_search)

lemma process_session_not_found:
  assumes "fst (find_seconds_for_type c dir_date (strftime_Ymd (start_time s))
                  (strftime_HM (start_time s)) ''BRP'') = Inr (None, sz)"
  shows "process_session c output_dir dir_date s st =
           Inr (st\<lparr>probes := probes st
                     @ map (seconds_path dir_date (strftime_Ymd (start_time s))
                              (strftime_HM (start_time s)) ''BRP'') [0..59],
                   total_probed := total_probed st + 60,
                   total_not_found := total_not_found st + 5\<rparr>)"
proof -
  let ?p = "seconds_path dir_date (strftime_Ymd (start_time s)) (strftime_HM (start_time s)) ''BRP''"
  from assms have r: "search_result c ?p [0..59] = Inr (None, sz)"
    by (simp add: find_seconds_for_type_search)
  from search_result_None [OF r]
  have "find_seconds_for_type c dir_date (strftime_Ymd (start_time s))
          (strftime_HM (start_time s)) ''BRP'' = (Inr (None, 0), map ?p [0..59])"
    using r by (simp add: find_seconds_for_type_search)
  then show ?thesis
    by (simp add: process_session_def Let_def DATALOG_ALL_TYPES_def DATALOG_TYPES_EARLY_def
        DATALOG_TYPES_LATE_def)
qed

text \<open>
  Claim C5. \<open>find_seconds_for_type\<close> probes the seconds 00 to 59 in increasing order and
  returns the first value whose probe reports a file of nonzero size, with that size, and
  \<open>(None, 0)\<close> when there is none. In that case \<open>download_datalog\<close> gives the session
  up: the 60 probes of the anchor type are the only ones, nothing is fetched, and all five
  type tags are counted as not found.
\<close>

theorem find_seconds_for_type_scan:
  "find_seconds_for_type c dir_date file_date hhmm ftype =
     (search_result c (seconds_path dir_date file_date hhmm ftype) [0..59],
      search_probes c (seconds_path dir_date file_date hhmm ftype) [0..59])
   \<and> (fst (find_seconds_for_type c dir_date (strftime_Ymd (start_time s))
             (strftime_HM (start_time s)) ''BRP'') = Inr (None, 0)
        \<longrightarrow> process_session c output_dir dir_date s st =
              Inr (st\<lparr>probes := probes st
                        @ map (seconds_path dir_date (strftime_Ymd (start_time s))
                                 (strftime_HM (start_time s)) ''BRP'') [0..59],
                      total_probed := total_probed st + 60,
                      total_not_found := total_not_found st + int (length DATALOG_ALL_TYPES)\<rparr>))
   \<and> length DATALOG_ALL_TYPES = 5"
  using process_session_not_found [of c dir_date s 0 output_dir st]
  by (simp add: find_seconds_for_type_search DATALOG_ALL_TYPES_def DATALOG_TYPES_EARLY_def
      DATALOG_TYPES_LATE_def)

lemma brp_at_37_scan:
  "find_seconds_for_type brp_at_37 ''20240110'' ''20240111'' ''1000'' ''BRP''
     = (Inr (Some ''37'', 2000),
        map (seconds_path ''20240110'' ''20240111'' ''1000'' ''BRP'') [0..37])"
  by code_simp

lemma empty_card_scan:
  "find_seconds_for_type (example_card []) ''20240110'' ''20240111'' ''1000'' ''BRP''
     = (Inr (None, 0), map (seconds_path ''20240110'' ''20240111'' ''1000'' ''BRP'') [0..59])"
  by code_simp

lemma example_session_names:
  "strftime_Ymd (start_time example_session) = ''20240111''"
  "strftime_HM (start_time example_session) = ''1000''"
  by code_simp+

theorem find_seconds_for_type_scan_witness:
  "search_result brp_at_37 (seconds_path ''20240110'' ''20240111'' ''1000'' ''BRP'') [0..59]
     = Inr (Some ''37'', 2000)
   \<and> search_probes brp_at_37 (seconds_path ''20240110'' ''20240111'' ''1000'' ''BRP'') [0..59]
     = map (seconds_path ''20240110'' ''20240111'' ''1000'' ''BRP'') [0..37]
   \<and> fst (find_seconds_for_type (example_card []) ''20240110'' ''20240111'' ''1000'' ''BRP'')
     = Inr (None, 0)
   \<and> process_session (example_card []) ''out'' ''20240110'' example_session example_state =
        Inr (example_state\<lparr>probes :=
               map (seconds_path ''20240110'' ''20240111'' ''1000'' ''BRP'') [0..59],
             total_probed := 60, total_not_found := 5\<rparr>)"
proof -
  have a: "fst (find_seconds_for_type (example_card []) ''20240110''
             (strftime_Ymd (start_time example_session))
             (strftime_HM (start_time example_session)) ''BRP'') = Inr (None, 0)"
    by (simp add: example_session_names empty_card_scan)
  have b: "probes example_state = []" "total_probed example_state = 0"
    "total_not_found example_state = 0"
    by (simp_all add: example_state_def)
  show ?thesis
    using find_seconds_for_type_scan [of brp_at_37 "''20240110''" "''20240111''" "''1000''"
        "''BRP''" example_session "''out''" example_state]
      find_seconds_for_type_scan [of "example_card []" "''20240110''" "''20240111''" "''1000''"
        "''BRP''" example_session "''out''" example_state] a
    unfolding example_session_names
    by (simp add: brp_at_37_scan empty_card_scan b)
qed




lemma process_date_not_a_directory:
  assumes "is_real_directory c (''DATALOG/'' @ dir_date) = Inr False"
  shows "process_date c output_dir by_dir dir_date st =
      Inr (st\<lparr>probes := probes st @ [rstrip_slash (''DATALOG/'' @ dir_date)],
              total_probed := total_probed st + 1\<rparr>)"
  using assms by (simp add: process_date_def bindE_def Let_def)

text \<open>
  Claim C10. A path is an existing directory exactly when the probe of the path without
  its trailing slashes reports \<open>(True, 0)\<close>. When the probe of the directory of a record
  day reports that nothing exists, or fails on the network, the sessions of that day are
  skipped: the directory probe is the only probe and nothing else changes.
\<close>

theorem is_real_directory_probe:
  "(is_real_directory c path = Inr True
      \<longleftrightarrow> is_real_file c (rstrip_slash path) = Inr (True, 0))
   \<and> (is_real_file c (rstrip_slash (''DATALOG/'' @ dir_date)) = Inr (False, sz)
        \<or> http_head c (card_url c (rstrip_slash (''DATALOG/'' @ dir_date))) = HeadFailed
      \<longrightarrow> process_date c output_dir by_dir dir_date st =
            Inr (st\<lparr>probes := probes st @ [rstrip_slash (''DATALOG/'' @ dir_date)],
                    total_probed := total_probed st + 1\<rparr>))"
proof -
  have dir: "is_real_directory c path = Inr True
      \<longleftrightarrow> is_real_file c (rstrip_slash path) = Inr (True, 0)"
    by (auto simp: is_real_directory_def bindE_Inr)
  have skip: "process_date c output_dir by_dir dir_date st =
            Inr (st\<lparr>probes := probes st @ [rstrip_slash (''DATALOG/'' @ dir_date)],
                    total_probed := total_probed st + 1\<rparr>)"
    if "is_real_file c (rstrip_slash (''DATALOG/'' @ dir_date)) = Inr (False, sz)
        \<or> http_head c (card_url c (rstrip_slash (''DATALOG/'' @ dir_date))) = HeadFailed"
  proof -
    from that have "\<exists>n. is_real_file c (rstrip_slash (''DATALOG/'' @ dir_date)) = Inr (False, n)"
      by (auto simp: is_real_file_def)
    then have "is_real_directory c (''DATALOG/'' @ dir_date) = Inr False"
      by (auto simp: is_real_directory_def bindE_def)
    then show ?thesis by (rule process_date_not_a_directory)
  qed
  from dir skip show ?thesis by blast
qed

theorem is_real_directory_probe_witness:
  "is_real_file (example_card [(''http://192.168.4.1/DATALOG/20240110'', 0)])
       (rstrip_slash ''DATALOG/20240110/'') = Inr (True, 0)
   \<and> is_real_directory (example_card [(''http://192.168.4.1/DATALOG/20240110'', 0)])
       ''DATALOG/20240110/'' = Inr True
   \<and> http_head unreachable_card (card_url unreachable_card (rstrip_slash (''DATALOG/'' @ ''20240110'')))
       = HeadFailed
   \<and> process_date unreachable_card ''out'' [(''20240110'', [example_session])] ''20240110''
         example_state
       = Inr (example_state\<lparr>probes := [''DATALOG/20240110''], total_probed := 1\<rparr>)"
proof -
  have a: "is_real_file (example_card [(''http://192.168.4.1/DATALOG/20240110'', 0)])
       (rstrip_slash ''DATALOG/20240110/'') = Inr (True, 0)"
    by code_simp
  have b: "http_head unreachable_card
       (card_url unreachable_card (rstrip_slash (''DATALOG/'' @ ''20240110''))) = HeadFailed"
    by (simp add: unreachable_card_def)
  have c: "rstrip_slash (''DATALOG/'' @ ''20240110'') = ''DATALOG/20240110''"
    by (simp add: rstrip_slash_def)
  have d: "probes example_state = []" "total_probed example_state = 0"
    by (simp_all add: example_state_def)
  show ?thesis
    using is_real_directory_probe [of "example_card [(''http://192.168.4.1/DATALOG/20240110'', 0)]"
        "''DATALOG/20240110/''" "''20240110''" 0 "''out''" "[]" example_state]
      is_real_directory_probe [of unreachable_card "''DATALOG/20240110/''" "''20240110''" 0
        "''out''" "[(''20240110'', [example_session])]" example_state] a b
    unfolding c by (simp add: d)
qed

section \<open>Fetching: proofs\<close>

lemma path_join_inject:
  "take 1 p \<noteq> ''/'' \<Longrightarrow> take 1 q \<noteq> ''/'' \<Longrightarrow> path_join a p = path_join a q \<Longrightarrow> p = q"
  by (auto simp: path_join_def split: if_splits)

lemma datalog_path_relative: "take 1 (datalog_path dd fd hhmm ss ft ext) \<noteq> ''/''"
  by (simp add: datalog_path_def)

lemma covers_refl: "covers c a sto sto"
  by (simp add: covers_def)

lemma covers_trans: "covers c a sto1 sto2 \<Longrightarrow> covers c a sto2 sto3 \<Longrightarrow> covers c a sto1 sto3"
  by (simp add: covers_def)

lemma confirmed_unique: "confirmed c p n \<Longrightarrow> confirmed c p m \<Longrightarrow> n = m"
  by (simp add: confirmed_def)

lemma synced_iff: "confirmed c p n \<Longrightarrow> synced c a sto p \<longleftrightarrow> same_size sto (path_join a p) n"
  unfolding synced_def using confirmed_unique by blast

lemma settled_iff:
  "confirmed c p n \<Longrightarrow> settled c a sto p
     \<longleftrightarrow> same_size sto (path_join a p) n \<or> download_file c sto p (path_join a p) = (False, sto)"
  unfolding settled_def using confirmed_unique by blast

lemma rewritten_iff:
  "confirmed c p n \<Longrightarrow> rewritten c a sto p
     \<longleftrightarrow> same_size sto (path_join a p) n \<or> snd (download_file c sto p (path_join a p)) = sto"
  unfolding rewritten_def using confirmed_unique by blast

text \<open>What a download does to the storage: nothing, or one write at the local path.\<close>

lemma download_file_cases:
  "snd (download_file c sto p l) = sto
   \<or> (\<exists>body. snd (download_file c sto p l) = sto(l \<mapsto> body))"
  by (auto simp: download_file_def Let_def split: get_result.splits)

lemma download_file_upd:
  "l \<noteq> l' \<Longrightarrow> download_file c (sto(l' \<mapsto> b)) p l
     = (fst (download_file c sto p l), (snd (download_file c sto p l))(l' \<mapsto> b))"
  by (auto simp: download_file_def Let_def fun_upd_twist split: get_result.splits)

lemma download_file_twice:
  "download_file c (snd (download_file c sto p l)) p l = download_file c sto p l"
  by (simp add: download_file_def Let_def split: get_result.splits)

lemma download_file_flag: "fst (download_file c sto p l) = fst (download_file c sto' p l')"
  by (simp add: download_file_def Let_def split: get_result.splits)

lemma same_size_upd: "l \<noteq> l' \<Longrightarrow> same_size (sto(l' \<mapsto> b)) l n = same_size sto l n"
  by (simp add: same_size_def)

lemma covers_upd_other:
  assumes p: "take 1 p \<noteq> ''/''" and q: "take 1 q \<noteq> ''/''" and ne: "q \<noteq> p"
  shows "(synced c a sto q \<longrightarrow> synced c a (sto(path_join a p \<mapsto> b)) q)
       \<and> (settled c a sto q \<longrightarrow> settled c a (sto(path_join a p \<mapsto> b)) q)
       \<and> (rewritten c a sto q \<longrightarrow> rewritten c a (sto(path_join a p \<mapsto> b)) q)"
proof -
  have l: "path_join a q \<noteq> path_join a p"
    using path_join_inject [OF q p] ne by blast
  have d: "download_file c (sto(path_join a p \<mapsto> b)) q (path_join a q)
      = (fst (download_file c sto q (path_join a q)),
         (snd (download_file c sto q (path_join a q)))(path_join a p \<mapsto> b))"
    by (rule download_file_upd [OF l])
  have s: "same_size (sto(path_join a p \<mapsto> b)) (path_join a q) n
      = same_size sto (path_join a q) n" for n
    by (rule same_size_upd [OF l])
  show ?thesis
    unfolding synced_def settled_def rewritten_def s d
    by (auto simp: prod_eq_iff)
qed

text \<open>
  A download of a confirmed path whose local copy has not the probed size, as the code
  makes it, keeps what was synced, settled or rewritten.
\<close>

lemma download_covers:
  assumes rel: "take 1 p \<noteq> ''/''" and conf: "confirmed c p n"
    and diff: "\<not> same_size sto (path_join a p) n"
  shows "covers c a sto (snd (download_file c sto p (path_join a p)))"
  unfolding covers_def
proof (intro allI impI)
  fix q assume q: "take 1 q \<noteq> ''/''"
  let ?sto' = "snd (download_file c sto p (path_join a p))"
  show "(synced c a sto q \<longrightarrow> synced c a ?sto' q)
      \<and> (settled c a sto q \<longrightarrow> settled c a ?sto' q)
      \<and> (rewritten c a sto q \<longrightarrow> rewritten c a ?sto' q)"
  proof (cases "q = p")
    case True
    have "\<not> synced c a sto p" using diff by (simp add: synced_iff [OF conf])
    moreover have "settled c a sto p \<Longrightarrow> ?sto' = sto"
      using diff by (simp add: settled_iff [OF conf])
    moreover have "rewritten c a sto p \<Longrightarrow> ?sto' = sto"
      using diff by (simp add: rewritten_iff [OF conf])
    ultimately show ?thesis using True by auto
  next
    case False
    from download_file_cases [of c sto p "path_join a p"]
    show ?thesis
    proof
      assume "?sto' = sto"
      then show ?thesis by simp
    next
      assume "\<exists>body. ?sto' = sto(path_join a p \<mapsto> body)"
      then obtain body where "?sto' = sto(path_join a p \<mapsto> body)" by blast
      then show ?thesis using covers_upd_other [OF rel q False] by simp
    qed
  qed
qed

lemma download_rewritten:
  "rewritten c a (snd (download_file c sto p (path_join a p))) p"
  by (simp add: rewritten_def download_file_twice)

lemma download_settled:
  assumes kept: "sizes_kept c" and conf: "confirmed c (datalog_path dd fd hhmm ss ft ''.edf'') n"
  shows "settled c a (snd (download_file c sto (datalog_path dd fd hhmm ss ft ''.edf'')
            (path_join a (datalog_path dd fd hhmm ss ft ''.edf''))))
          (datalog_path dd fd hhmm ss ft ''.edf'')"
proof -
  let ?p = "datalog_path dd fd hhmm ss ft ''.edf''"
  let ?l = "path_join a ?p"
  obtain ok sto' where d: "download_file c sto ?p ?l = (ok, sto')"
    by (cases "download_file c sto ?p ?l")
  show ?thesis
  proof (cases ok)
    case True
    with d have "download_file c sto ?p ?l = (True, sto')" by simp
    with kept conf have "same_size sto' ?l n" unfolding sizes_kept_def by blast
    then show ?thesis using d by (simp add: settled_iff [OF conf])
  next
    case False
    have "download_file c sto' ?p ?l = (False, sto')"
      using download_file_twice [of c sto ?p ?l] d False by simp
    then show ?thesis using d by (simp add: settled_iff [OF conf])
  qed
qed

section \<open>Steps that can be run again\<close>

lemma rerunnable_pure:
  assumes "\<And>st. X st = Inr (st\<lparr>probes := probes st @ ps,
                               total_probed := total_probed st + k,
                               total_not_found := total_not_found st + nf\<rparr>)"
  shows "rerunnable c a X"
  unfolding rerunnable_def
proof (intro allI impI)
  fix st st1 assume "X st = Inr st1"
  then have st1: "st1 = st\<lparr>probes := probes st @ ps, total_probed := total_probed st + k,
                            total_not_found := total_not_found st + nf\<rparr>"
    using assms [of st] by simp
  have again: "\<exists>sk. (0::int) \<le> sk \<and> (can_fetch c \<longrightarrow> sk = 0)
      \<and> X st' = Inr (st'\<lparr>probes := probes st' @ ps,
                         total_skipped := total_skipped st' + sk,
                         total_probed := total_probed st' + k,
                         total_not_found := total_not_found st' + nf\<rparr>)" for st'
    by (rule exI [of _ 0]) (simp add: assms)
  show "\<exists>ps n k nf.
           probes st1 = probes st @ ps
           \<and> total_downloaded st1 + total_skipped st1 = total_downloaded st + total_skipped st + n
           \<and> total_probed st1 = total_probed st + k
           \<and> total_not_found st1 = total_not_found st + nf
           \<and> covers c a (fs st) (fs st1)
           \<and> (\<forall>st'. covers c a (fs st1) (fs st') \<longrightarrow>
                 (\<exists>sk. n \<le> sk \<and> (can_fetch c \<longrightarrow> sk = n)
                    \<and> X st' = Inr (st'\<lparr>probes := probes st' @ ps,
                                       total_skipped := total_skipped st' + sk,
                                       total_probed := total_probed st' + k,
                                       total_not_found := total_not_found st' + nf\<rparr>)))"
    apply (rule exI [of _ ps], rule exI [of _ 0], rule exI [of _ k], rule exI [of _ nf])
    using st1 again by (simp add: covers_refl)
qed

lemma rerunnable_fail:
  assumes "\<And>st. \<exists>e. X st = Inl e"
  shows "rerunnable c a X"
  unfolding rerunnable_def
proof (intro allI impI)
  fix st st1 assume "X st = Inr st1"
  with assms [of st] have False by auto
  then show "\<exists>ps n k nf.
           probes st1 = probes st @ ps
           \<and> total_downloaded st1 + total_skipped st1 = total_downloaded st + total_skipped st + n
           \<and> total_probed st1 = total_probed st + k
           \<and> total_not_found st1 = total_not_found st + nf
           \<and> covers c a (fs st) (fs st1)
           \<and> (\<forall>st'. covers c a (fs st1) (fs st') \<longrightarrow>
                 (\<exists>sk. n \<le> sk \<and> (can_fetch c \<longrightarrow> sk = n)
                    \<and> X st' = Inr (st'\<lparr>probes := probes st' @ ps,
                                       total_skipped := total_skipped st' + sk,
                                       total_probed := total_probed st' + k,
                                       total_not_found := total_not_found st' + nf\<rparr>)))" ..
qed

lemma rerunnable_bind:
  assumes X: "rerunnable c a X" and Y: "rerunnable c a Y"
  shows "rerunnable c a (\<lambda>st. bindE (X st) Y)"
  unfolding rerunnable_def
proof (intro allI impI)
  fix st st2 assume "bindE (X st) Y = Inr st2"
  then obtain st1 where x: "X st = Inr st1" and y: "Y st1 = Inr st2"
    by (auto simp: bindE_Inr)
  from X x obtain ps1 n1 k1 nf1 where
    p1: "probes st1 = probes st @ ps1" and
    c1: "total_downloaded st1 + total_skipped st1 = total_downloaded st + total_skipped st + n1" and
    t1: "total_probed st1 = total_probed st + k1" and
    f1: "total_not_found st1 = total_not_found st + nf1" and
    cov1: "covers c a (fs st) (fs st1)" and
    re1: "\<And>st'. covers c a (fs st1) (fs st') \<Longrightarrow>
           \<exists>sk. n1 \<le> sk \<and> (can_fetch c \<longrightarrow> sk = n1)
              \<and> X st' = Inr (st'\<lparr>probes := probes st' @ ps1,
                            total_skipped := total_skipped st' + sk,
                            total_probed := total_probed st' + k1,
                            total_not_found := total_not_found st' + nf1\<rparr>)"
    unfolding rerunnable_def by blast
  from Y y obtain ps2 n2 k2 nf2 where
    p2: "probes st2 = probes st1 @ ps2" and
    c2: "total_downloaded st2 + total_skipped st2 = total_downloaded st1 + total_skipped st1 + n2" and
    t2: "total_probed st2 = total_probed st1 + k2" and
    f2: "total_not_found st2 = total_not_found st1 + nf2" and
    cov2: "covers c a (fs st1) (fs st2)" and
    re2: "\<And>st'. covers c a (fs st2) (fs st') \<Longrightarrow>
           \<exists>sk. n2 \<le> sk \<and> (can_fetch c \<longrightarrow> sk = n2)
              \<and> Y st' = Inr (st'\<lparr>probes := probes st' @ ps2,
                            total_skipped := total_skipped st' + sk,
                            total_probed := total_probed st' + k2,
                            total_not_found := total_not_found st' + nf2\<rparr>)"
    unfolding rerunnable_def by blast
  have again: "\<exists>sk. n1 + n2 \<le> sk \<and> (can_fetch c \<longrightarrow> sk = n1 + n2)
      \<and> bindE (X st') Y = Inr (st'\<lparr>probes := probes st' @ (ps1 @ ps2),
                                  total_skipped := total_skipped st' + sk,
                                  total_probed := total_probed st' + (k1 + k2),
                                  total_not_found := total_not_found st' + (nf1 + nf2)\<rparr>)"
    if cov: "covers c a (fs st2) (fs st')" for st'
  proof -
    have "covers c a (fs st1) (fs st')" using cov2 cov by (rule covers_trans)
    from re1 [OF this] obtain sk1 where
      le1: "n1 \<le> sk1" and eq1: "can_fetch c \<longrightarrow> sk1 = n1" and
      x': "X st' = Inr (st'\<lparr>probes := probes st' @ ps1,
                     total_skipped := total_skipped st' + sk1,
                     total_probed := total_probed st' + k1,
                     total_not_found := total_not_found st' + nf1\<rparr>)"
      by blast
    let ?mid = "st'\<lparr>probes := probes st' @ ps1,
                     total_skipped := total_skipped st' + sk1,
                     total_probed := total_probed st' + k1,
                     total_not_found := total_not_found st' + nf1\<rparr>"
    have "covers c a (fs st2) (fs ?mid)" using cov by simp
    from re2 [OF this] obtain sk2 where
      le2: "n2 \<le> sk2" and eq2: "can_fetch c \<longrightarrow> sk2 = n2" and
      y': "Y ?mid = Inr (?mid\<lparr>probes := probes ?mid @ ps2,
                            total_skipped := total_skipped ?mid + sk2,
                            total_probed := total_probed ?mid + k2,
                            total_not_found := total_not_found ?mid + nf2\<rparr>)"
      by blast
    have "bindE (X st') Y = Inr (st'\<lparr>probes := probes st' @ (ps1 @ ps2),
                                  total_skipped := total_skipped st' + (sk1 + sk2),
                                  total_probed := total_probed st' + (k1 + k2),
                                  total_not_found := total_not_found st' + (nf1 + nf2)\<rparr>)"
      using x' y' by (simp add: bindE_def add.assoc)
    moreover have "n1 + n2 \<le> sk1 + sk2" using le1 le2 by simp
    moreover have "can_fetch c \<longrightarrow> sk1 + sk2 = n1 + n2" using eq1 eq2 by simp
    ultimately show ?thesis by blast
  qed
  show "\<exists>ps n k nf.
           probes st2 = probes st @ ps
           \<and> total_downloaded st2 + total_skipped st2 = total_downloaded st + total_skipped st + n
           \<and> total_probed st2 = total_probed st + k
           \<and> total_not_found st2 = total_not_found st + nf
           \<and> covers c a (fs st) (fs st2)
           \<and> (\<forall>st'. covers c a (fs st2) (fs st') \<longrightarrow>
                 (\<exists>sk. n \<le> sk \<and> (can_fetch c \<longrightarrow> sk = n)
                    \<and> bindE (X st') Y = Inr (st'\<lparr>probes := probes st' @ ps,
                                  total_skipped := total_skipped st' + sk,
                                  total_probed := total_probed st' + k,
                                  total_not_found := total_not_found st' + nf\<rparr>)))"
    apply (rule exI [of _ "ps1 @ ps2"], rule exI [of _ "n1 + n2"],
           rule exI [of _ "k1 + k2"], rule exI [of _ "nf1 + nf2"])
    using p1 p2 c1 c2 t1 t2 f1 f2 covers_trans [OF cov1 cov2] again by simp
qed

lemma rerunnable_id: "rerunnable c a Inr"
proof -
  have "Inr st = (Inr (st\<lparr>probes := probes st @ [], total_probed := total_probed st + 0,
                  total_not_found := total_not_found st + 0\<rparr>) :: error + dl_state)" for st
    by simp
  then show ?thesis by (rule rerunnable_pure)
qed


section \<open>Fetching one file, twice\<close>

lemma fetch_edf_skip:
  "same_size (fs st) l sz \<Longrightarrow> fetch_edf c p l sz st = st\<lparr>total_skipped := total_skipped st + 1\<rparr>"
  by (simp add: fetch_edf_def)

lemma fetch_edf_fetch:
  "\<not> same_size (fs st) l sz \<Longrightarrow>
     fetch_edf c p l sz st
       = (if fst (download_file c (fs st) p l)
          then st\<lparr>fs := snd (download_file c (fs st) p l),
                  total_downloaded := total_downloaded st + 1\<rparr>
          else st\<lparr>fs := snd (download_file c (fs st) p l)\<rparr>)"
  by (simp add: fetch_edf_def split: prod.splits)

lemma rerunnable_fetch_edf:
  assumes kept: "sizes_kept c" and p: "p = datalog_path dd fd hhmm ss ft ''.edf''"
    and conf: "confirmed c p sz"
  shows "rerunnable c a (\<lambda>st. Inr (fetch_edf c p (path_join a p) sz st))"
  unfolding rerunnable_def
proof (intro allI impI)
  fix st st1 :: dl_state
  assume "Inr (fetch_edf c p (path_join a p) sz st) = (Inr st1 :: error + dl_state)"
  then have st1: "st1 = fetch_edf c p (path_join a p) sz st" by simp
  have rel: "take 1 p \<noteq> ''/''" unfolding p by (rule datalog_path_relative)
  let ?l = "path_join a p"
  let ?ok = "fst (download_file c (fs st) p ?l)"
  define n :: int where "n = (if same_size (fs st) ?l sz \<or> ?ok then 1 else 0)"
  have after: "probes st1 = probes st
      \<and> total_downloaded st1 + total_skipped st1 = total_downloaded st + total_skipped st + n
      \<and> total_probed st1 = total_probed st
      \<and> total_not_found st1 = total_not_found st
      \<and> covers c a (fs st) (fs st1)
      \<and> settled c a (fs st1) p
      \<and> (n = 1 \<longrightarrow> same_size (fs st1) ?l sz)"
  proof (cases "same_size (fs st) ?l sz")
    case True
    then show ?thesis
      by (simp add: st1 fetch_edf_skip covers_refl n_def settled_iff [OF conf])
  next
    case False
    have f: "fs st1 = snd (download_file c (fs st) p ?l)"
      using False by (simp add: st1 fetch_edf_fetch)
    have cov: "covers c a (fs st) (fs st1)"
      unfolding f by (rule download_covers [OF rel conf False])
    have set: "settled c a (fs st1) p"
      unfolding f using download_settled [OF kept conf [unfolded p], of a "fs st"]
      by (simp add: p)
    have full: "same_size (fs st1) ?l sz" if "?ok"
    proof -
      from that have "download_file c (fs st) p ?l = (True, fs st1)"
        by (simp add: f prod_eq_iff)
      with kept conf show ?thesis unfolding sizes_kept_def p by blast
    qed
    show ?thesis
      using False cov set full by (simp add: st1 fetch_edf_fetch n_def)
  qed
  have again: "\<exists>sk. n \<le> sk \<and> (can_fetch c \<longrightarrow> sk = n)
      \<and> Inr (fetch_edf c p ?l sz st')
      = (Inr (st'\<lparr>probes := probes st' @ [],
                  total_skipped := total_skipped st' + sk,
                  total_probed := total_probed st' + 0,
                  total_not_found := total_not_found st' + 0\<rparr>) :: error + dl_state)"
    if cov: "covers c a (fs st1) (fs st')" for st'
  proof (cases "same_size (fs st') ?l sz")
    case True
    have "n \<le> 1" by (simp add: n_def)
    moreover have "can_fetch c \<longrightarrow> n = 1"
    proof
      assume "can_fetch c"
      with conf have "?ok" unfolding can_fetch_def p by blast
      then show "n = 1" by (simp add: n_def)
    qed
    moreover have "fetch_edf c p ?l sz st' = st'\<lparr>probes := probes st' @ [],
                  total_skipped := total_skipped st' + 1,
                  total_probed := total_probed st' + 0,
                  total_not_found := total_not_found st' + 0\<rparr>"
      using True by (simp add: fetch_edf_skip)
    ultimately show ?thesis by auto
  next
    case False
    have "settled c a (fs st') p" using after cov rel by (simp add: covers_def)
    with False have d: "download_file c (fs st') p ?l = (False, fs st')"
      by (simp add: settled_iff [OF conf])
    have "\<not> synced c a (fs st') p" using False by (simp add: synced_iff [OF conf])
    then have "\<not> synced c a (fs st1) p" using cov rel by (auto simp: covers_def)
    then have "n \<noteq> 1" using after by (simp add: synced_iff [OF conf])
    then have n0: "n = 0" by (simp add: n_def split: if_splits)
    have "\<not> can_fetch c"
      using conf d unfolding can_fetch_def p by (metis fst_conv)
    moreover have "fetch_edf c p ?l sz st' = st'\<lparr>probes := probes st' @ [],
                  total_skipped := total_skipped st' + 0,
                  total_probed := total_probed st' + 0,
                  total_not_found := total_not_found st' + 0\<rparr>"
      using False d by (simp add: fetch_edf_fetch)
    ultimately show ?thesis using n0 by auto
  qed
  show "\<exists>ps n k nf.
           probes st1 = probes st @ ps
           \<and> total_downloaded st1 + total_skipped st1 = total_downloaded st + total_skipped st + n
           \<and> total_probed st1 = total_probed st + k
           \<and> total_not_found st1 = total_not_found st + nf
           \<and> covers c a (fs st) (fs st1)
           \<and> (\<forall>st'. covers c a (fs st1) (fs st') \<longrightarrow>
                 (\<exists>sk. n \<le> sk \<and> (can_fetch c \<longrightarrow> sk = n)
                    \<and> Inr (fetch_edf c p (path_join a p) sz st')
                    = Inr (st'\<lparr>probes := probes st' @ ps,
                                  total_skipped := total_skipped st' + sk,
                                  total_probed := total_probed st' + k,
                                  total_not_found := total_not_found st' + nf\<rparr>)))"
    apply (rule exI [of _ "[]"], rule exI [of _ n], rule exI [of _ 0], rule exI [of _ 0])
    using after again by simp
qed

lemma rerunnable_fetch_crc:
  assumes rel: "take 1 q \<noteq> ''/''"
  shows "rerunnable c a (fetch_crc c q (path_join a q))"
proof (cases "is_real_file c q")
  case (Inl e)
  then show ?thesis
    by (intro rerunnable_fail) (simp add: fetch_crc_def bindE_def)
next
  case (Inr r)
  obtain ex n where r: "r = (ex, n)" by (cases r)
  show ?thesis
  proof (cases "ex \<and> 0 < n")
    case False
    then have "fetch_crc c q (path_join a q) st
        = Inr (st\<lparr>probes := probes st @ [q], total_probed := total_probed st + 0,
                  total_not_found := total_not_found st + 0\<rparr>)" for st
      using Inr r by (auto simp: fetch_crc_def bindE_def Let_def)
    then show ?thesis by (rule rerunnable_pure)
  next
    case True
    then have conf: "confirmed c q n" using Inr r by (simp add: confirmed_def)
    let ?l = "path_join a q"
    have step: "fetch_crc c q ?l st =
        (if \<not> same_size (fs st) ?l n
         then Inr (st\<lparr>probes := probes st @ [q],
                      fs := snd (download_file c (fs st) q ?l)\<rparr>)
         else Inr (st\<lparr>probes := probes st @ [q]\<rparr>))" for st
      using Inr r True by (simp add: fetch_crc_def bindE_def Let_def)
    show ?thesis
      unfolding rerunnable_def
    proof (intro allI impI)
      fix st st1 assume run: "fetch_crc c q ?l st = Inr st1"
      have after: "probes st1 = probes st @ [q]
          \<and> total_downloaded st1 + total_skipped st1 = total_downloaded st + total_skipped st + 0
          \<and> total_probed st1 = total_probed st + 0
          \<and> total_not_found st1 = total_not_found st + 0
          \<and> covers c a (fs st) (fs st1)
          \<and> rewritten c a (fs st1) q"
      proof (cases "same_size (fs st) ?l n")
        case True
        then show ?thesis
          using run by (auto simp: step covers_refl rewritten_iff [OF conf])
      next
        case False
        have st1: "st1 = st\<lparr>probes := probes st @ [q],
                             fs := snd (download_file c (fs st) q ?l)\<rparr>"
          using run False by (simp add: step)
        show ?thesis
          using download_covers [OF rel conf False] download_rewritten [of c a "fs st" q]
          by (simp add: st1)
      qed
      have again: "\<exists>sk. (0::int) \<le> sk \<and> (can_fetch c \<longrightarrow> sk = 0)
          \<and> fetch_crc c q ?l st'
          = Inr (st'\<lparr>probes := probes st' @ [q],
                      total_skipped := total_skipped st' + sk,
                      total_probed := total_probed st' + 0,
                      total_not_found := total_not_found st' + 0\<rparr>)"
        if cov: "covers c a (fs st1) (fs st')" for st'
      proof -
        have "rewritten c a (fs st') q" using after cov rel by (simp add: covers_def)
        then have "same_size (fs st') ?l n \<or> snd (download_file c (fs st') q ?l) = fs st'"
          by (simp add: rewritten_iff [OF conf])
        then have "fetch_crc c q ?l st'
          = Inr (st'\<lparr>probes := probes st' @ [q],
                      total_skipped := total_skipped st' + 0,
                      total_probed := total_probed st' + 0,
                      total_not_found := total_not_found st' + 0\<rparr>)"
          by (auto simp: step)
        then show ?thesis by auto
      qed
      show "\<exists>ps n k nf.
           probes st1 = probes st @ ps
           \<and> total_downloaded st1 + total_skipped st1 = total_downloaded st + total_skipped st + n
           \<and> total_probed st1 = total_probed st + k
           \<and> total_not_found st1 = total_not_found st + nf
           \<and> covers c a (fs st) (fs st1)
           \<and> (\<forall>st'. covers c a (fs st1) (fs st') \<longrightarrow>
                 (\<exists>sk. n \<le> sk \<and> (can_fetch c \<longrightarrow> sk = n)
                    \<and> fetch_crc c q (path_join a q) st' = Inr (st'\<lparr>probes := probes st' @ ps,
                                  total_skipped := total_skipped st' + sk,
                                  total_probed := total_probed st' + k,
                                  total_not_found := total_not_found st' + nf\<rparr>)))"
        apply (rule exI [of _ "[q]"], rule exI [of _ 0], rule exI [of _ 0], rule exI [of _ 0])
        using after again by blast
    qed
  qed
qed

lemma rerunnable_fetch_file:
  assumes "sizes_kept c" and "confirmed_file c dd fd hhmm x"
  shows "rerunnable c a (fetch_file c a dd fd hhmm x)"
proof -
  obtain ft ss sz where x: "x = (ft, ss, sz)" by (cases x)
  let ?e = "datalog_path dd fd hhmm ss ft ''.edf''"
  let ?r = "datalog_path dd fd hhmm ss ft ''.crc''"
  have conf: "confirmed c ?e sz" using assms(2) by (simp add: x confirmed_file_def)
  have "fetch_file c a dd fd hhmm x
      = (\<lambda>st. bindE (Inr (fetch_edf c ?e (path_join a ?e) sz st)) (fetch_crc c ?r (path_join a ?r)))"
    by (rule ext) (simp add: fetch_file_def x Let_def bindE_def)
  then show ?thesis
    using rerunnable_bind [OF rerunnable_fetch_edf [OF assms(1) refl conf]
        rerunnable_fetch_crc [OF datalog_path_relative]]
    by simp
qed

lemma rerunnable_fetch_files:
  assumes "sizes_kept c" and "\<forall>x \<in> set files. confirmed_file c dd fd hhmm x"
  shows "rerunnable c a (fetch_files c a dd fd hhmm files)"
  using assms(2)
proof (induction files)
  case Nil
  have "fetch_files c a dd fd hhmm [] = Inr" by (rule ext) simp
  then show ?case by (simp add: rerunnable_id)
next
  case (Cons x rest)
  have eq: "fetch_files c a dd fd hhmm (x # rest)
      = (\<lambda>st. bindE (fetch_file c a dd fd hhmm x st) (fetch_files c a dd fd hhmm rest))"
    by (rule ext) simp
  show ?case
    unfolding eq
    using Cons by (intro rerunnable_bind rerunnable_fetch_file [OF assms(1)]) simp_all
qed

lemma search_result_Some:
  "search_result c p xs = Inr (Some ss, sz) \<Longrightarrow>
     \<exists>x \<in> set xs. ss = fmt_d 2 x \<and> confirmed c (p x) sz"
proof (induction xs)
  case Nil
  then show ?case by simp
next
  case (Cons x xs)
  show ?case
  proof (cases "ends_search c (p x)")
    case False
    with Cons show ?thesis by (simp add: search_Cons)
  next
    case True
    with Cons.prems have r: "(case is_real_file c (p x) of Inl e \<Rightarrow> Inl e
        | Inr (exists, n) \<Rightarrow> Inr (Some (fmt_d 2 x), n)) = Inr (Some ss, sz)"
      by (simp add: search_Cons)
    then obtain ex where f: "is_real_file c (p x) = Inr (ex, sz)" and s: "ss = fmt_d 2 x"
      by (auto split: sum.splits prod.splits)
    from True f have "ex \<and> 0 < sz" by (simp add: ends_search_Inr)
    with f s show ?thesis by (simp add: confirmed_def)
  qed
qed

lemma find_seconds_for_type_confirmed:
  assumes "find_seconds_for_type c dd fd hhmm ft = (Inr (Some ss, sz), probed)"
  shows "confirmed c (datalog_path dd fd hhmm ss ft ''.edf'') sz"
proof -
  from assms have "search_result c (seconds_path dd fd hhmm ft) [0..59] = Inr (Some ss, sz)"
    by (simp add: find_seconds_for_type_search)
  from search_result_Some [OF this] show ?thesis by (auto simp: seconds_path_def)
qed

lemma find_seconds_near_confirmed:
  assumes "find_seconds_near c dd fd hhmm ft ref w = (Inr (Some ss, sz), probed)"
  shows "confirmed c (datalog_path dd fd hhmm ss ft ''.edf'') sz"
proof (cases "py_int ref")
  case (Inl e)
  with assms show ?thesis by (simp add: find_seconds_near_def)
next
  case (Inr r)
  with assms have "search_result c (seconds_path dd fd hhmm ft)
        (filter in_seconds_range
           (concat (map (\<lambda>k. if k = 0 then [r + k] else [r + k, r - k]) [0..w])))
      = Inr (Some ss, sz)"
    by (simp add: find_seconds_near_def near_offsets_search)
  from search_result_Some [OF this] show ?thesis by (auto simp: seconds_path_def)
qed

text \<open>The shape of one step of the loops over the types: it does not look at the state.\<close>

lemma near_step_shape:
  "(\<forall>files st. \<exists>e. near_step c dd fd hhmm brp ft (files, st) = Inl e)
   \<or> (\<exists>extra ps. (\<forall>x \<in> set extra. confirmed_file c dd fd hhmm x)
        \<and> (\<forall>files st. near_step c dd fd hhmm brp ft (files, st)
              = Inr (files @ extra,
                     st\<lparr>probes := probes st @ ps, total_probed := total_probed st + 1\<rparr>)))"
proof -
  obtain r probed where f: "find_seconds_near c dd fd hhmm ft brp 15 = (r, probed)"
    by (cases "find_seconds_near c dd fd hhmm ft brp 15")
  show ?thesis
  proof (cases r)
    case (Inl e)
    then show ?thesis using f by (simp add: near_step_def)
  next
    case (Inr found)
    obtain ss sz where found: "found = (ss, sz)" by (cases found)
    show ?thesis
    proof (cases ss)
      case None
      have "\<forall>files st. near_step c dd fd hhmm brp ft (files, st)
              = Inr (files @ [],
                     st\<lparr>probes := probes st @ probed, total_probed := total_probed st + 1\<rparr>)"
        using f Inr found None by (simp add: near_step_def)
      moreover have "\<forall>x \<in> set ([] :: confirmed_file list). confirmed_file c dd fd hhmm x" by simp
      ultimately show ?thesis by blast
    next
      case (Some s)
      have conf: "confirmed_file c dd fd hhmm (ft, s, sz)"
        using find_seconds_near_confirmed [of c dd fd hhmm ft brp 15 s sz probed] f Inr found Some
        by (simp add: confirmed_file_def)
      have "\<forall>files st. near_step c dd fd hhmm brp ft (files, st)
              = Inr (files @ [(ft, s, sz)],
                     st\<lparr>probes := probes st @ probed, total_probed := total_probed st + 1\<rparr>)"
        using f Inr found Some by (simp add: near_step_def)
      moreover have "\<forall>x \<in> set [(ft, s, sz)]. confirmed_file c dd fd hhmm x"
        using conf by simp
      ultimately show ?thesis by blast
    qed
  qed
qed

lemma loop_shape_id: "loop_shape c dd fd hhmm Inr"
proof -
  have "\<forall>files st. (Inr (files, st) :: error + confirmed_file list \<times> dl_state)
      = Inr (files @ [], st\<lparr>probes := probes st @ [], total_probed := total_probed st + 0\<rparr>)"
    by simp
  moreover have "\<forall>x \<in> set ([] :: confirmed_file list). confirmed_file c dd fd hhmm x" by simp
  ultimately show ?thesis unfolding loop_shape_def by blast
qed

lemma loop_shape_bind:
  assumes A: "loop_shape c dd fd hhmm A" and B: "loop_shape c dd fd hhmm B"
  shows "loop_shape c dd fd hhmm (\<lambda>acc. bindE (A acc) B)"
proof -
  from A consider (fail) "\<forall>files st. \<exists>e. A (files, st) = Inl e"
    | (ok) extra ps k where "\<forall>x \<in> set extra. confirmed_file c dd fd hhmm x"
        "\<forall>files st. A (files, st)
            = Inr (files @ extra,
                   st\<lparr>probes := probes st @ ps, total_probed := total_probed st + k\<rparr>)"
    unfolding loop_shape_def by blast
  then show ?thesis
  proof cases
    case fail
    then have "\<forall>files st. \<exists>e. bindE (A (files, st)) B = Inl e"
      by (metis bindE_Inl)
    then show ?thesis unfolding loop_shape_def by blast
  next
    case ok
    from B consider (fail2) "\<forall>files st. \<exists>e. B (files, st) = Inl e"
      | (ok2) extra2 ps2 k2 where "\<forall>x \<in> set extra2. confirmed_file c dd fd hhmm x"
          "\<forall>files st. B (files, st)
              = Inr (files @ extra2,
                     st\<lparr>probes := probes st @ ps2, total_probed := total_probed st + k2\<rparr>)"
      unfolding loop_shape_def by blast
    then show ?thesis
    proof cases
      case fail2
      have "\<exists>e. bindE (A (files, st)) B = Inl e" for files st
        using ok(2) fail2 by (simp add: bindE_def)
      then show ?thesis unfolding loop_shape_def by blast
    next
      case ok2
      have "\<forall>files st. bindE (A (files, st)) B
          = Inr (files @ (extra @ extra2),
                 st\<lparr>probes := probes st @ (ps @ ps2), total_probed := total_probed st + (k + k2)\<rparr>)"
        using ok(2) ok2(2) by (simp add: bindE_def add.assoc)
      moreover have "\<forall>x \<in> set (extra @ extra2). confirmed_file c dd fd hhmm x"
        using ok(1) ok2(1) by auto
      ultimately show ?thesis unfolding loop_shape_def by blast
    qed
  qed
qed

lemma loop_shape_near_step: "loop_shape c dd fd hhmm (near_step c dd fd hhmm brp ft)"
  using near_step_shape [of c dd fd hhmm brp ft]
  unfolding loop_shape_def
  by (metis add.commute)

lemma loop_shape_late: "loop_shape c dd fd hhmm (late_loop c dd fd hhmm brp types)"
proof (induction types)
  case Nil
  have "late_loop c dd fd hhmm brp [] = Inr" by (rule ext) simp
  then show ?case by (simp add: loop_shape_id)
next
  case (Cons ft rest)
  show ?case
  proof (cases "ft = ''BRP''")
    case True
    then have "late_loop c dd fd hhmm brp (ft # rest) = late_loop c dd fd hhmm brp rest"
      by (intro ext) simp
    then show ?thesis using Cons by simp
  next
    case False
    then have "late_loop c dd fd hhmm brp (ft # rest)
        = (\<lambda>acc. bindE (near_step c dd fd hhmm brp ft acc) (late_loop c dd fd hhmm brp rest))"
      by (intro ext) simp
    then show ?thesis
      using loop_shape_bind [OF loop_shape_near_step Cons] by simp
  qed
qed

lemma loop_shape_early: "loop_shape c dd fd hhmm (early_loop c dd fd hhmm brp types)"
proof (induction types)
  case Nil
  have "early_loop c dd fd hhmm brp [] = Inr" by (rule ext) simp
  then show ?case by (simp add: loop_shape_id)
next
  case (Cons ft rest)
  have "early_loop c dd fd hhmm brp (ft # rest)
      = (\<lambda>acc. bindE (near_step c dd fd hhmm brp ft acc) (early_loop c dd fd hhmm brp rest))"
    by (intro ext) simp
  then show ?case
    using loop_shape_bind [OF loop_shape_near_step Cons] by simp
qed

lemma bindE_Inr_left: "bindE (Inr x) k = k x"
  by (simp add: bindE_def)



section \<open>The loops of download\_datalog, twice\<close>

lemma rerunnable_process_session:
  assumes served: "sizes_kept c"
  shows "rerunnable c a (process_session c a dd s)"
proof -
  let ?fd = "strftime_Ymd (start_time s)"
  let ?hm = "strftime_HM (start_time s)"
  obtain r probed where f: "find_seconds_for_type c dd ?fd ?hm ''BRP'' = (r, probed)"
    by (cases "find_seconds_for_type c dd ?fd ?hm ''BRP''")
  show ?thesis
  proof (cases r)
    case (Inl e)
    then have "\<exists>e. process_session c a dd s st = Inl e" for st
      using f by (simp add: process_session_def Let_def)
    then show ?thesis by (rule rerunnable_fail)
  next
    case (Inr found)
    obtain ss sz where found: "found = (ss, sz)" by (cases found)
    show ?thesis
    proof (cases ss)
      case None
      have "process_session c a dd s st
          = Inr (st\<lparr>probes := probes st @ probed, total_probed := total_probed st + 60,
                    total_not_found := total_not_found st + int (length DATALOG_ALL_TYPES)\<rparr>)" for st
        using f Inr found None by (simp add: process_session_def Let_def)
      then show ?thesis by (rule rerunnable_pure)
    next
      case (Some brp)
      have brp: "confirmed_file c dd ?fd ?hm (''BRP'', brp, sz)"
        using find_seconds_for_type_confirmed [of c dd ?fd ?hm "''BRP''" brp sz probed]
          f Inr found Some
        by (simp add: confirmed_file_def)
      let ?L = "\<lambda>acc. bindE (late_loop c dd ?fd ?hm brp DATALOG_TYPES_LATE acc)
                  (early_loop c dd ?fd ?hm brp DATALOG_TYPES_EARLY)"
      have step: "process_session c a dd s st =
          bindE (py_int brp) (\<lambda>n.
          bindE (?L ([(''BRP'', brp, sz)],
                     st\<lparr>probes := probes st @ probed,
                        total_probed := total_probed st + (n + 1)\<rparr>)) (\<lambda>acc2.
            fetch_files c a dd ?fd ?hm (fst acc2) (snd acc2)))" for st
        using f Inr found Some
        by (simp add: process_session_def Let_def bindE_def split: sum.splits)
      show ?thesis
      proof (cases "py_int brp")
        case (Inl e)
        then have "\<exists>e. process_session c a dd s st = Inl e" for st
          by (simp add: step bindE_def)
        then show ?thesis by (rule rerunnable_fail)
      next
        case n: (Inr n)
        have "loop_shape c dd ?fd ?hm ?L"
          by (rule loop_shape_bind [OF loop_shape_late loop_shape_early])
        then consider (fail) "\<forall>files st. \<exists>e. ?L (files, st) = Inl e"
          | (ok) extra ps k where "\<forall>x \<in> set extra. confirmed_file c dd ?fd ?hm x"
              "\<forall>files st. ?L (files, st)
                  = Inr (files @ extra,
                         st\<lparr>probes := probes st @ ps, total_probed := total_probed st + k\<rparr>)"
          unfolding loop_shape_def by blast
        then show ?thesis
        proof cases
          case fail
          have "\<exists>e. process_session c a dd s st = Inl e" for st
          proof -
            from fail obtain e where "?L ([(''BRP'', brp, sz)],
                     st\<lparr>probes := probes st @ probed,
                        total_probed := total_probed st + (n + 1)\<rparr>) = Inl e"
              by blast
            then show ?thesis using n by (simp add: step bindE_def)
          qed
          then show ?thesis by (rule rerunnable_fail)
        next
          case ok
          let ?P = "\<lambda>st. Inr (st\<lparr>probes := probes st @ (probed @ ps),
                              total_probed := total_probed st + (n + 1 + k),
                              total_not_found := total_not_found st + 0\<rparr>) :: error + dl_state"
          have eq: "process_session c a dd s
              = (\<lambda>st. bindE (?P st) (fetch_files c a dd ?fd ?hm ((''BRP'', brp, sz) # extra)))"
          proof (rule ext)
            fix st
            have L: "?L ([(''BRP'', brp, sz)],
                     st\<lparr>probes := probes st @ probed,
                        total_probed := total_probed st + (n + 1)\<rparr>)
                = Inr ([(''BRP'', brp, sz)] @ extra,
                       st\<lparr>probes := probes st @ probed,
                          total_probed := total_probed st + (n + 1)\<rparr>
                         \<lparr>probes := probes (st\<lparr>probes := probes st @ probed,
                          total_probed := total_probed st + (n + 1)\<rparr>) @ ps,
                          total_probed := total_probed (st\<lparr>probes := probes st @ probed,
                          total_probed := total_probed st + (n + 1)\<rparr>) + k\<rparr>)"
              using ok(2) by blast
            show "process_session c a dd s st
                = bindE (?P st) (fetch_files c a dd ?fd ?hm ((''BRP'', brp, sz) # extra))"
              unfolding step n bindE_Inr_left L by (simp add: add.assoc)
          qed
          have files: "\<forall>x \<in> set ((''BRP'', brp, sz) # extra). confirmed_file c dd ?fd ?hm x"
            using brp ok(1) by simp
          have "rerunnable c a ?P" by (rule rerunnable_pure) (rule refl)
          then show ?thesis
            unfolding eq
            by (rule rerunnable_bind [OF _ rerunnable_fetch_files [OF served files]])
        qed
      qed
    qed
  qed
qed

lemma rerunnable_session_loop:
  assumes "sizes_kept c"
  shows "rerunnable c a (session_loop c a dd ss)"
proof (induction ss)
  case Nil
  have "session_loop c a dd [] = Inr" by (rule ext) simp
  then show ?case by (simp add: rerunnable_id)
next
  case (Cons s rest)
  have "session_loop c a dd (s # rest)
      = (\<lambda>st. bindE (process_session c a dd s st) (session_loop c a dd rest))"
    by (rule ext) simp
  then show ?case
    using rerunnable_bind [OF rerunnable_process_session [OF assms] Cons] by simp
qed

lemma rerunnable_process_date:
  assumes "sizes_kept c"
  shows "rerunnable c a (process_date c a by_dir dd)"
proof (cases "is_real_directory c (''DATALOG/'' @ dd)")
  case (Inl e)
  then have "\<exists>e. process_date c a by_dir dd st = Inl e" for st
    by (simp add: process_date_def bindE_def)
  then show ?thesis by (rule rerunnable_fail)
next
  case (Inr is_dir)
  show ?thesis
  proof (cases is_dir)
    case False
    have "process_date c a by_dir dd st
        = Inr (st\<lparr>probes := probes st @ [rstrip_slash (''DATALOG/'' @ dd)],
                  total_probed := total_probed st + 1,
                  total_not_found := total_not_found st + 0\<rparr>)" for st
      using Inr False by (simp add: process_date_def bindE_def Let_def)
    then show ?thesis by (rule rerunnable_pure)
  next
    case True
    let ?P = "\<lambda>st. Inr (st\<lparr>probes := probes st @ [rstrip_slash (''DATALOG/'' @ dd)],
                              total_probed := total_probed st + 0,
                              total_not_found := total_not_found st + 0\<rparr>) :: error + dl_state"
    have eq: "process_date c a by_dir dd
        = (\<lambda>st. bindE (?P st) (session_loop c a dd (by_dir_get by_dir dd)))"
      using Inr True by (intro ext) (simp add: process_date_def bindE_def Let_def)
    have "rerunnable c a ?P" by (rule rerunnable_pure) (rule refl)
    then show ?thesis
      unfolding eq by (rule rerunnable_bind [OF _ rerunnable_session_loop [OF assms]])
  qed
qed

lemma rerunnable_date_loop:
  assumes "sizes_kept c"
  shows "rerunnable c a (date_loop c a by_dir dates)"
proof (induction dates)
  case Nil
  have "date_loop c a by_dir [] = Inr" by (rule ext) simp
  then show ?case by (simp add: rerunnable_id)
next
  case (Cons d rest)
  have "date_loop c a by_dir (d # rest)
      = (\<lambda>st. bindE (process_date c a by_dir d st) (date_loop c a by_dir rest))"
    by (rule ext) simp
  then show ?case
    using rerunnable_bind [OF rerunnable_process_date [OF assms] Cons] by simp
qed



section \<open>A second run over fewer sessions\<close>

lemma rerunnable_clean:
  assumes "rerunnable c a X" and "X st = Inr st1"
  shows "covers c a (fs st) (fs st1) \<and> reruns_clean c a X (fs st1)"
proof -
  from assms obtain ps n k nf where
    cov: "covers c a (fs st) (fs st1)" and
    re: "\<And>st'. covers c a (fs st1) (fs st') \<Longrightarrow>
           \<exists>sk. n \<le> sk \<and> (can_fetch c \<longrightarrow> sk = n)
              \<and> X st' = Inr (st'\<lparr>probes := probes st' @ ps,
                            total_skipped := total_skipped st' + sk,
                            total_probed := total_probed st' + k,
                            total_not_found := total_not_found st' + nf\<rparr>)"
    unfolding rerunnable_def by blast
  have "\<exists>st''. X st' = Inr st'' \<and> fs st'' = fs st' \<and> total_downloaded st'' = total_downloaded st'"
    if "covers c a (fs st1) (fs st')" for st' :: dl_state
    using re [OF that] by auto
  with cov show ?thesis by (simp add: reruns_clean_def)
qed

lemma reruns_clean_mono:
  "reruns_clean c a X sto \<Longrightarrow> covers c a sto sto' \<Longrightarrow> reruns_clean c a X sto'"
  unfolding reruns_clean_def using covers_trans by blast

lemma reruns_clean_id: "reruns_clean c a Inr sto"
  by (simp add: reruns_clean_def)

lemma reruns_clean_bind:
  assumes X: "reruns_clean c a X sto" and Y: "reruns_clean c a Y sto"
  shows "reruns_clean c a (\<lambda>st. bindE (X st) Y) sto"
  unfolding reruns_clean_def
proof (intro allI impI)
  fix st' :: dl_state
  assume cov: "covers c a sto (fs st')"
  with X obtain st2 where x: "X st' = Inr st2" and f2: "fs st2 = fs st'"
    and d2: "total_downloaded st2 = total_downloaded st'"
    unfolding reruns_clean_def by blast
  from cov f2 have "covers c a sto (fs st2)" by simp
  with Y obtain st3 where y: "Y st2 = Inr st3" and f3: "fs st3 = fs st2"
    and d3: "total_downloaded st3 = total_downloaded st2"
    unfolding reruns_clean_def by blast
  show "\<exists>st''. bindE (X st') Y = Inr st'' \<and> fs st'' = fs st'
          \<and> total_downloaded st'' = total_downloaded st'"
    using x y f2 f3 d2 d3 by (simp add: bindE_def)
qed

lemma reruns_clean_pure:
  assumes "\<And>st. X st = Inr (st\<lparr>probes := probes st @ ps,
                               total_probed := total_probed st + k\<rparr>)"
  shows "reruns_clean c a X sto"
  by (simp add: reruns_clean_def assms)

lemma session_loop_first:
  assumes kept: "sizes_kept c"
  shows "session_loop c a dd ss st = Inr st1 \<Longrightarrow>
     covers c a (fs st) (fs st1)
     \<and> (\<forall>s \<in> set ss. reruns_clean c a (process_session c a dd s) (fs st1))"
proof (induction ss arbitrary: st)
  case Nil
  then show ?case by (simp add: covers_refl)
next
  case (Cons s rest)
  from Cons.prems obtain stm where one: "process_session c a dd s st = Inr stm"
    and more: "session_loop c a dd rest stm = Inr st1"
    by (auto simp: bindE_Inr)
  from rerunnable_clean [OF rerunnable_process_session [OF kept] one]
  have c1: "covers c a (fs st) (fs stm)"
    and r1: "reruns_clean c a (process_session c a dd s) (fs stm)"
    by simp_all
  from Cons.IH [OF more]
  have c2: "covers c a (fs stm) (fs st1)"
    and r2: "\<forall>s \<in> set rest. reruns_clean c a (process_session c a dd s) (fs st1)"
    by simp_all
  show ?case
    using covers_trans [OF c1 c2] reruns_clean_mono [OF r1 c2] r2 by simp
qed

lemma session_loop_again:
  "\<forall>s \<in> set ss. reruns_clean c a (process_session c a dd s) sto \<Longrightarrow>
     reruns_clean c a (session_loop c a dd ss) sto"
proof (induction ss)
  case Nil
  have "session_loop c a dd [] = Inr" by (rule ext) simp
  then show ?case by (simp add: reruns_clean_id)
next
  case (Cons s rest)
  have eq: "session_loop c a dd (s # rest)
      = (\<lambda>st. bindE (process_session c a dd s st) (session_loop c a dd rest))"
    by (rule ext) simp
  show ?case
    unfolding eq using Cons by (intro reruns_clean_bind) simp_all
qed

lemma day_reruns_clean_mono:
  "day_reruns_clean c a by_dir d sto \<Longrightarrow> covers c a sto sto'
     \<Longrightarrow> day_reruns_clean c a by_dir d sto'"
  unfolding day_reruns_clean_def using reruns_clean_mono by blast

lemma process_date_first:
  assumes kept: "sizes_kept c" and run: "process_date c a by_dir d st = Inr st1"
  shows "covers c a (fs st) (fs st1) \<and> day_reruns_clean c a by_dir d (fs st1)"
proof -
  from run obtain is_dir where dir: "is_real_directory c (''DATALOG/'' @ d) = Inr is_dir"
    by (auto simp: process_date_def bindE_Inr)
  let ?st0 = "st\<lparr>probes := probes st @ [rstrip_slash (''DATALOG/'' @ d)]\<rparr>"
  show ?thesis
  proof (cases is_dir)
    case False
    have pure: "process_date c a by_dir2 d st'
        = Inr (st'\<lparr>probes := probes st' @ [rstrip_slash (''DATALOG/'' @ d)],
                   total_probed := total_probed st' + 1\<rparr>)" for by_dir2 st'
      using dir False by (simp add: process_date_def bindE_def Let_def)
    have "fs st1 = fs st" using run [unfolded pure] by auto
    moreover have "reruns_clean c a (process_date c a by_dir2 d) (fs st1)" for by_dir2
      by (rule reruns_clean_pure) (rule pure)
    ultimately show ?thesis by (simp add: covers_refl day_reruns_clean_def)
  next
    case True
    have step: "process_date c a by_dir2 d
        = (\<lambda>st'. bindE (Inr (st'\<lparr>probes := probes st' @ [rstrip_slash (''DATALOG/'' @ d)],
                                  total_probed := total_probed st' + 0\<rparr>))
                    (session_loop c a d (by_dir_get by_dir2 d)))" for by_dir2
      using dir True by (intro ext) (simp add: process_date_def bindE_def Let_def)
    from run have "session_loop c a d (by_dir_get by_dir d) ?st0 = Inr st1"
      by (simp add: step bindE_def)
    from session_loop_first [OF kept this]
    have cov: "covers c a (fs st) (fs st1)"
      and all: "\<forall>s \<in> set (by_dir_get by_dir d).
                  reruns_clean c a (process_session c a d s) (fs st1)"
      by simp_all
    have "reruns_clean c a (process_date c a by_dir2 d) (fs st1)"
      if sub: "set (by_dir_get by_dir2 d) \<subseteq> set (by_dir_get by_dir d)" for by_dir2
    proof -
      have S: "reruns_clean c a (session_loop c a d (by_dir_get by_dir2 d)) (fs st1)"
        using all sub by (intro session_loop_again) blast
      have P: "reruns_clean c a
          (\<lambda>st'. Inr (st'\<lparr>probes := probes st' @ [rstrip_slash (''DATALOG/'' @ d)],
                           total_probed := total_probed st' + 0\<rparr>)) (fs st1)"
        by (rule reruns_clean_pure) (rule refl)
      show ?thesis
        unfolding step by (rule reruns_clean_bind [OF P S])
    qed
    with cov show ?thesis by (simp add: day_reruns_clean_def)
  qed
qed

lemma date_loop_first:
  assumes kept: "sizes_kept c"
  shows "date_loop c a by_dir dates st = Inr st1 \<Longrightarrow>
     covers c a (fs st) (fs st1)
     \<and> (\<forall>d \<in> set dates. day_reruns_clean c a by_dir d (fs st1))"
proof (induction dates arbitrary: st)
  case Nil
  then show ?case by (simp add: covers_refl)
next
  case (Cons d rest)
  from Cons.prems obtain stm where one: "process_date c a by_dir d st = Inr stm"
    and more: "date_loop c a by_dir rest stm = Inr st1"
    by (auto simp: bindE_Inr)
  from process_date_first [OF kept one]
  have c1: "covers c a (fs st) (fs stm)" and r1: "day_reruns_clean c a by_dir d (fs stm)"
    by simp_all
  from Cons.IH [OF more]
  have c2: "covers c a (fs stm) (fs st1)"
    and r2: "\<forall>d \<in> set rest. day_reruns_clean c a by_dir d (fs st1)"
    by simp_all
  show ?case
    using covers_trans [OF c1 c2] day_reruns_clean_mono [OF r1 c2] r2 by simp
qed

lemma date_loop_again:
  "\<forall>d \<in> set dates. reruns_clean c a (process_date c a by_dir d) sto \<Longrightarrow>
     reruns_clean c a (date_loop c a by_dir dates) sto"
proof (induction dates)
  case Nil
  have "date_loop c a by_dir [] = Inr" by (rule ext) simp
  then show ?case by (simp add: reruns_clean_id)
next
  case (Cons d rest)
  have eq: "date_loop c a by_dir (d # rest)
      = (\<lambda>st. bindE (process_date c a by_dir d st) (date_loop c a by_dir rest))"
    by (rule ext) simp
  show ?case
    unfolding eq using Cons by (intro reruns_clean_bind) simp_all
qed

text \<open>The dictionary \<open>by_dir\<close>: its keys are the record days, each with its sessions.\<close>

lemma map_of_by_dir_add:
  "map_of (by_dir_add s m) d
     = (if d = record_date s
        then Some ((case map_of m d of None \<Rightarrow> [] | Some l \<Rightarrow> l) @ [s])
        else map_of m d)"
  by (induction m) auto

lemma keys_by_dir_add: "fst ` set (by_dir_add s m) = insert (record_date s) (fst ` set m)"
proof (induction m)
  case Nil
  then show ?case by simp
next
  case (Cons x m)
  obtain d l where x: "x = (d, l)" by (cases x)
  show ?case
    using Cons by (cases "d = record_date s") (simp_all add: x insert_commute insert_absorb)
qed

lemma by_dir_get_foldl:
  "by_dir_get (foldl (\<lambda>by_dir s. by_dir_add s by_dir) m xs) d
     = by_dir_get m d @ filter (\<lambda>s. record_date s = d) xs"
proof (induction xs arbitrary: m)
  case Nil
  then show ?case by simp
next
  case (Cons x xs)
  have "by_dir_get (by_dir_add x m) d
      = by_dir_get m d @ (if record_date x = d then [x] else [])"
    by (auto simp: by_dir_get_def map_of_by_dir_add)
  then show ?case using Cons [of "by_dir_add x m"] by simp
qed

lemma keys_foldl:
  "fst ` set (foldl (\<lambda>by_dir s. by_dir_add s by_dir) m xs) = fst ` set m \<union> record_date ` set xs"
proof (induction xs arbitrary: m)
  case Nil
  then show ?case by simp
next
  case (Cons x xs)
  show ?case using Cons [of "by_dir_add x m"] by (simp add: keys_by_dir_add)
qed

lemma by_dir_get_group:
  "by_dir_get (group_by_dir xs) d = filter (\<lambda>s. record_date s = d) xs"
  unfolding group_by_dir_def by_dir_get_foldl by (simp add: by_dir_get_def)

lemma keys_group: "set (map fst (group_by_dir xs)) = record_date ` set xs"
  by (simp add: group_by_dir_def keys_foldl)

section \<open>download\_datalog, twice\<close>

lemma download_datalog_unfold:
  "cutoff_of now days_back = Inr cutoff \<Longrightarrow>
   download_datalog c sessions a now days_back sto
     = (if filter (\<lambda>s. \<not> before_cutoff cutoff s) sessions = []
        then Inr \<lparr>fs = sto, probes = [], total_downloaded = 0, total_skipped = 0,
                  total_probed = 0, total_not_found = 0\<rparr>
        else date_loop c a (group_by_dir (filter (\<lambda>s. \<not> before_cutoff cutoff s) sessions))
               (sort (map fst (group_by_dir (filter (\<lambda>s. \<not> before_cutoff cutoff s) sessions))))
               \<lparr>fs = sto, probes = [], total_downloaded = 0, total_skipped = 0,
                total_probed = 0, total_not_found = 0\<rparr>)"
  by (simp add: download_datalog_def bindE_def Let_def)

text \<open>
  The second run reads the clock again: its cut-off may differ from the first run's. When
  it drops every session the first run dropped, the second run downloads nothing.
\<close>

lemma download_datalog_no_new_downloads:
  assumes kept: "sizes_kept c"
    and cut1: "cutoff_of now1 days_back1 = Inr cutoff1"
    and cut2: "cutoff_of now2 days_back2 = Inr cutoff2"
    and drop: "\<forall>s \<in> set sessions. before_cutoff cutoff1 s \<longrightarrow> before_cutoff cutoff2 s"
    and run: "download_datalog c sessions a now1 days_back1 fs0 = Inr st1"
  shows "\<exists>st2. download_datalog c sessions a now2 days_back2 (fs st1) = Inr st2
           \<and> total_downloaded st2 = 0 \<and> fs st2 = fs st1"
proof -
  let ?f1 = "filter (\<lambda>s. \<not> before_cutoff cutoff1 s) sessions"
  let ?f2 = "filter (\<lambda>s. \<not> before_cutoff cutoff2 s) sessions"
  let ?init = "\<lambda>sto. \<lparr>fs = sto, probes = [], total_downloaded = 0, total_skipped = 0,
                  total_probed = 0, total_not_found = 0\<rparr>"
  have sub: "set ?f2 \<subseteq> set ?f1" using drop by auto
  show ?thesis
  proof (cases "?f2 = []")
    case True
    then show ?thesis by (simp add: download_datalog_unfold [OF cut2])
  next
    case False
    from sub hd_in_set [OF False] have "hd ?f2 \<in> set ?f1" by (rule subsetD)
    then have "0 < length ?f1" by (rule length_pos_if_in_set)
    then have ne: "?f1 \<noteq> []" by (simp del: length_filter_conv_card)
    with run have x: "date_loop c a (group_by_dir ?f1) (sort (map fst (group_by_dir ?f1)))
        (?init fs0) = Inr st1"
      by (simp add: download_datalog_unfold [OF cut1])
    have keys1: "set (sort (map fst (group_by_dir ?f1))) = record_date ` set ?f1"
      using keys_group [of ?f1] by (simp only: set_sort)
    have keys2: "set (sort (map fst (group_by_dir ?f2))) = record_date ` set ?f2"
      using keys_group [of ?f2] by (simp only: set_sort)
    from date_loop_first [OF kept x]
    have "\<forall>d \<in> set (sort (map fst (group_by_dir ?f1))).
            day_reruns_clean c a (group_by_dir ?f1) d (fs st1)"
      by blast
    then have days: "\<forall>d \<in> record_date ` set ?f1.
            day_reruns_clean c a (group_by_dir ?f1) d (fs st1)"
      unfolding keys1 .
    have "reruns_clean c a (process_date c a (group_by_dir ?f2) d) (fs st1)"
      if d: "d \<in> record_date ` set ?f2" for d
    proof -
      from d sub have "d \<in> record_date ` set ?f1" by blast
      with days have "day_reruns_clean c a (group_by_dir ?f1) d (fs st1)" by blast
      moreover have "set (by_dir_get (group_by_dir ?f2) d) \<subseteq> set (by_dir_get (group_by_dir ?f1) d)"
        using sub by (auto simp: by_dir_get_group)
      ultimately show ?thesis unfolding day_reruns_clean_def by blast
    qed
    then have "\<forall>d \<in> set (sort (map fst (group_by_dir ?f2))).
        reruns_clean c a (process_date c a (group_by_dir ?f2) d) (fs st1)"
      unfolding keys2 by blast
    then have "reruns_clean c a
        (date_loop c a (group_by_dir ?f2) (sort (map fst (group_by_dir ?f2)))) (fs st1)"
      by (rule date_loop_again)
    moreover have "covers c a (fs st1) (fs (?init (fs st1)))" by (simp add: covers_refl)
    ultimately have "\<exists>st2.
        date_loop c a (group_by_dir ?f2) (sort (map fst (group_by_dir ?f2))) (?init (fs st1))
          = Inr st2
        \<and> fs st2 = fs (?init (fs st1))
        \<and> total_downloaded st2 = total_downloaded (?init (fs st1))"
      unfolding reruns_clean_def by blast
    then obtain st2 where
      "date_loop c a (group_by_dir ?f2) (sort (map fst (group_by_dir ?f2))) (?init (fs st1))
         = Inr st2"
      "fs st2 = fs st1" "total_downloaded st2 = 0"
      by auto
    then show ?thesis using False by (simp add: download_datalog_unfold [OF cut2])
  qed
qed

text \<open>
  When the second run keeps the sessions the first run kept, it repeats the first run's
  probes and counts as skipped what the first run downloaded or skipped.
\<close>

lemma download_datalog_again:
  assumes kept: "sizes_kept c"
    and cut1: "cutoff_of now1 days_back1 = Inr cutoff1"
    and cut2: "cutoff_of now2 days_back2 = Inr cutoff2"
    and same: "\<forall>s \<in> set sessions. before_cutoff cutoff1 s \<longleftrightarrow> before_cutoff cutoff2 s"
    and run: "download_datalog c sessions a now1 days_back1 fs0 = Inr st1"
  shows "\<exists>sk. total_downloaded st1 + total_skipped st1 \<le> sk
           \<and> (can_fetch c \<longrightarrow> sk = total_downloaded st1 + total_skipped st1)
           \<and> download_datalog c sessions a now2 days_back2 (fs st1)
               = Inr (st1\<lparr>total_downloaded := 0, total_skipped := sk\<rparr>)"
proof -
  let ?f1 = "filter (\<lambda>s. \<not> before_cutoff cutoff1 s) sessions"
  let ?f2 = "filter (\<lambda>s. \<not> before_cutoff cutoff2 s) sessions"
  let ?init = "\<lambda>sto. \<lparr>fs = sto, probes = [], total_downloaded = 0, total_skipped = 0,
                  total_probed = 0, total_not_found = 0\<rparr>"
  let ?X = "date_loop c a (group_by_dir ?f1) (sort (map fst (group_by_dir ?f1)))"
  have f: "?f2 = ?f1" using same by (intro filter_cong) simp_all
  show ?thesis
  proof (cases "?f1 = []")
    case True
    with run have "st1 = ?init fs0" by (simp add: download_datalog_unfold [OF cut1])
    then have "download_datalog c sessions a now2 days_back2 (fs st1)
        = Inr (st1\<lparr>total_downloaded := 0, total_skipped := 0\<rparr>)"
      "total_downloaded st1 + total_skipped st1 = 0"
      using True by (simp_all add: download_datalog_unfold [OF cut2] f)
    then show ?thesis by auto
  next
    case False
    with run have x: "?X (?init fs0) = Inr st1" by (simp add: download_datalog_unfold [OF cut1])
    from rerunnable_date_loop [OF kept, of a "group_by_dir ?f1" "sort (map fst (group_by_dir ?f1))"] x
    obtain ps n k nf where
      p: "probes st1 = ps" and
      cnt: "total_downloaded st1 + total_skipped st1 = n" and
      t: "total_probed st1 = k" and
      nf: "total_not_found st1 = nf" and
      re: "\<And>st'. covers c a (fs st1) (fs st') \<Longrightarrow>
           \<exists>sk. n \<le> sk \<and> (can_fetch c \<longrightarrow> sk = n)
              \<and> ?X st' = Inr (st'\<lparr>probes := probes st' @ ps,
                            total_skipped := total_skipped st' + sk,
                            total_probed := total_probed st' + k,
                            total_not_found := total_not_found st' + nf\<rparr>)"
      unfolding rerunnable_def by fastforce
    have "covers c a (fs st1) (fs (?init (fs st1)))" by (simp add: covers_refl)
    from re [OF this] obtain sk where le: "n \<le> sk" and eq: "can_fetch c \<longrightarrow> sk = n"
      and two: "?X (?init (fs st1))
         = Inr ((?init (fs st1))\<lparr>probes := probes (?init (fs st1)) @ ps,
                            total_skipped := total_skipped (?init (fs st1)) + sk,
                            total_probed := total_probed (?init (fs st1)) + k,
                            total_not_found := total_not_found (?init (fs st1)) + nf\<rparr>)"
      by blast
    have "(?init (fs st1))\<lparr>probes := probes (?init (fs st1)) @ ps,
                            total_skipped := total_skipped (?init (fs st1)) + sk,
                            total_probed := total_probed (?init (fs st1)) + k,
                            total_not_found := total_not_found (?init (fs st1)) + nf\<rparr>
        = st1\<lparr>total_downloaded := 0, total_skipped := sk\<rparr>"
      using p t nf by (cases st1) simp
    with two have "download_datalog c sessions a now2 days_back2 (fs st1)
        = Inr (st1\<lparr>total_downloaded := 0, total_skipped := sk\<rparr>)"
      using False by (simp add: download_datalog_unfold [OF cut2] f)
    with le eq cnt show ?thesis by auto
  qed
qed


section \<open>The example devices\<close>

lemma sized_card_download:
  assumes files: "\<forall>x \<in> set files. case x of (u, n, m) \<Rightarrow>
             py_int (string_of_nat n) = Inr (int n) \<and> (0 < n \<longrightarrow> m = n)"
    and conf: "confirmed (sized_card files) path n"
  shows "\<exists>body. download_file (sized_card files) sto path l = (True, sto(l \<mapsto> body))
           \<and> int (length body) = n"
proof -
  let ?u = "card_url (sized_card files) path"
  show ?thesis
  proof (cases "map_of files ?u")
    case None
    then have "is_real_file (sized_card files) path = Inr (False, 0)"
      by (simp add: is_real_file_def sized_card_def header_get_def card_url_def)
    with conf show ?thesis by (simp add: confirmed_def)
  next
    case (Some nm)
    obtain n0 m0 where nm: "nm = (n0, m0)" by (cases nm)
    from Some nm have "(?u, n0, m0) \<in> set files" by (simp add: map_of_SomeD)
    with files have pi: "py_int (string_of_nat n0) = Inr (int n0)" and eq: "0 < n0 \<longrightarrow> m0 = n0"
      by auto
    have "is_real_file (sized_card files) path = Inr (True, int n0)"
      using Some nm pi
      by (simp add: is_real_file_def sized_card_def header_get_def card_url_def bindE_def)
    with conf have n: "n = int n0" and pos: "0 < n0" by (simp_all add: confirmed_def)
    have "http_get (sized_card files) ?u
        = GetReply [''Content-Type'' \<mapsto> ''text/plain''] (replicate m0 CHR ''x'') False"
      using Some nm by (simp add: sized_card_def card_url_def)
    moreover have "\<not> substring_in ''text/html''
        (header_get [''Content-Type'' \<mapsto> ''text/plain''] ''Content-Type'')"
      by (simp add: header_get_def)
    ultimately have "download_file (sized_card files) sto path l
        = (True, sto(l \<mapsto> replicate m0 CHR ''x''))"
      by (simp add: download_file_def Let_def)
    moreover have "int (length (replicate m0 CHR ''x'')) = n" using n pos eq by simp
    ultimately show ?thesis by blast
  qed
qed

lemma sized_card_kept:
  assumes "\<forall>x \<in> set files. case x of (u, n, m) \<Rightarrow>
             py_int (string_of_nat n) = Inr (int n) \<and> (0 < n \<longrightarrow> m = n)"
  shows "sizes_kept (sized_card files)" and "can_fetch (sized_card files)"
proof -
  show "sizes_kept (sized_card files)"
    unfolding sizes_kept_def
  proof (intro allI impI)
    fix dd fd hhmm ss ft n sto l sto'
    assume a: "confirmed (sized_card files) (datalog_path dd fd hhmm ss ft ''.edf'') n
        \<and> download_file (sized_card files) sto (datalog_path dd fd hhmm ss ft ''.edf'') l
            = (True, sto')"
    from sized_card_download [OF assms conjunct1 [OF a], of sto l] a
    show "same_size sto' l n" by (auto simp: same_size_def)
  qed
  show "can_fetch (sized_card files)"
    unfolding can_fetch_def
  proof (intro allI impI)
    fix dd fd hhmm ss ft n sto l
    assume "confirmed (sized_card files) (datalog_path dd fd hhmm ss ft ''.edf'') n"
    from sized_card_download [OF assms this, of sto l]
    show "fst (download_file (sized_card files) sto (datalog_path dd fd hhmm ss ft ''.edf'') l)"
      by auto
  qed
qed

lemma full_body_card_kept: "sizes_kept full_body_card" "can_fetch full_body_card"
proof -
  have "py_int (string_of_nat 0) = Inr (int 0)" "py_int (string_of_nat 100) = Inr (int 100)"
    by code_simp+
  then show "sizes_kept full_body_card" "can_fetch full_body_card"
    unfolding full_body_card_def by (intro sized_card_kept; simp)+
qed

lemma refusing_card_kept: "sizes_kept refusing_card"
  by (simp add: sizes_kept_def download_file_def refusing_card_def)

lemma example_cutoffs:
  "cutoff_of example_now (Some 7) = Inr (Some ''20240105'')"
  "cutoff_of later_now (Some 7) = Inr (Some ''20240113'')"
  "\<not> before_cutoff (Some ''20240105'') example_session"
  "before_cutoff (Some ''20240113'') example_session"
  by code_simp+

lemma full_body_runs:
  "case first_run full_body_card of
     Inl e \<Rightarrow> False
   | Inr st1 \<Rightarrow> total_downloaded st1 = 1 \<and> total_skipped st1 = 0"
  by code_simp

lemma short_body_runs:
  "case first_run short_body_card of
     Inl e \<Rightarrow> False
   | Inr st1 \<Rightarrow> total_downloaded st1 = 1 \<and> total_skipped st1 = 0
       \<and> map_option length (fs st1 ''out/DATALOG/20240110/20240111_100000_BRP.edf'') = Some 90
       \<and> (case download_datalog short_body_card [example_session] ''out'' example_now (Some 7)
                 (fs st1) of
             Inl e \<Rightarrow> False
           | Inr st2 \<Rightarrow> total_downloaded st2 = 1 \<and> total_skipped st2 = 0)"
  by code_simp

lemma refusing_runs:
  "case first_run refusing_card of
     Inl e \<Rightarrow> False
   | Inr st1 \<Rightarrow> total_downloaded st1 = 0 \<and> total_skipped st1 = 0
       \<and> (case download_datalog refusing_card [example_session] ''out'' example_now (Some 7)
                 (fs st1) of
             Inl e \<Rightarrow> False
           | Inr st2 \<Rightarrow> total_downloaded st2 = 0 \<and> total_skipped st2 = 0)"
  by code_simp

lemma example_heads:
  "is_real_file short_body_card ''DATALOG/20240110/20240111_100000_BRP.edf'' = Inr (True, 100)"
  "is_real_file refusing_card ''DATALOG/20240110/20240111_100000_BRP.edf'' = Inr (True, 100)"
  by code_simp+

text \<open>
  Claim C8, as amended. The fetch of a confirmed file is skipped exactly when a local
  copy exists whose size equals the confirmed remote size; otherwise the file is requested.
  Let every data file whose download succeeds be stored with the size its probe reported,
  and let \<open>download_datalog\<close> run a second time on the storage the first run left, with
  the device unchanged and its own reading of the clock and of \<open>days_back\<close>. When the
  second cut-off drops every session the first cut-off dropped, the second run returns,
  downloads nothing and leaves the storage as it is. When the two cut-offs keep the same
  sessions, the second run repeats the probes of the first and counts as skipped at least
  every file the first run downloaded or skipped, and exactly those when the download of
  every confirmed data file succeeds.
\<close>

theorem fetch_skipped_iff_same_size:
  "(fetch_edf c remote_edf local_edf sz st = st\<lparr>total_skipped := total_skipped st + 1\<rparr>
      \<longleftrightarrow> same_size (fs st) local_edf sz)
   \<and> (\<not> same_size (fs st) local_edf sz
        \<longrightarrow> fs (fetch_edf c remote_edf local_edf sz st)
              = snd (download_file c (fs st) remote_edf local_edf))
   \<and> (sizes_kept c
        \<and> download_datalog c sessions output_dir now1 days_back1 fs0 = Inr st1
        \<and> cutoff_of now1 days_back1 = Inr cutoff1
        \<and> cutoff_of now2 days_back2 = Inr cutoff2
        \<longrightarrow>
          ((\<forall>s \<in> set sessions. before_cutoff cutoff1 s \<longrightarrow> before_cutoff cutoff2 s)
             \<longrightarrow> (\<exists>st2. download_datalog c sessions output_dir now2 days_back2 (fs st1) = Inr st2
                    \<and> total_downloaded st2 = 0 \<and> fs st2 = fs st1))
        \<and> ((\<forall>s \<in> set sessions. before_cutoff cutoff1 s \<longleftrightarrow> before_cutoff cutoff2 s)
             \<longrightarrow> (\<exists>sk. total_downloaded st1 + total_skipped st1 \<le> sk
                    \<and> (can_fetch c \<longrightarrow> sk = total_downloaded st1 + total_skipped st1)
                    \<and> download_datalog c sessions output_dir now2 days_back2 (fs st1)
                        = Inr (st1\<lparr>total_downloaded := 0, total_skipped := sk\<rparr>))))"
proof -
  have a: "fetch_edf c remote_edf local_edf sz st = st\<lparr>total_skipped := total_skipped st + 1\<rparr>
      \<longleftrightarrow> same_size (fs st) local_edf sz"
  proof
    assume eq: "fetch_edf c remote_edf local_edf sz st = st\<lparr>total_skipped := total_skipped st + 1\<rparr>"
    show "same_size (fs st) local_edf sz"
    proof (rule ccontr)
      assume "\<not> same_size (fs st) local_edf sz"
      then have "total_skipped (fetch_edf c remote_edf local_edf sz st) = total_skipped st"
        by (simp add: fetch_edf_def split: prod.splits)
      with eq show False by simp
    qed
  next
    assume "same_size (fs st) local_edf sz"
    then show "fetch_edf c remote_edf local_edf sz st = st\<lparr>total_skipped := total_skipped st + 1\<rparr>"
      by (simp add: fetch_edf_def)
  qed
  have b: "\<not> same_size (fs st) local_edf sz
        \<Longrightarrow> fs (fetch_edf c remote_edf local_edf sz st)
              = snd (download_file c (fs st) remote_edf local_edf)"
    by (simp add: fetch_edf_def split: prod.splits)
  have c1: "\<exists>st2. download_datalog c sessions output_dir now2 days_back2 (fs st1) = Inr st2
                    \<and> total_downloaded st2 = 0 \<and> fs st2 = fs st1"
    if "sizes_kept c" "download_datalog c sessions output_dir now1 days_back1 fs0 = Inr st1"
      "cutoff_of now1 days_back1 = Inr cutoff1" "cutoff_of now2 days_back2 = Inr cutoff2"
      "\<forall>s \<in> set sessions. before_cutoff cutoff1 s \<longrightarrow> before_cutoff cutoff2 s"
    using download_datalog_no_new_downloads [OF that(1) that(3) that(4) that(5) that(2)] .
  have c2: "\<exists>sk. total_downloaded st1 + total_skipped st1 \<le> sk
                    \<and> (can_fetch c \<longrightarrow> sk = total_downloaded st1 + total_skipped st1)
                    \<and> download_datalog c sessions output_dir now2 days_back2 (fs st1)
                        = Inr (st1\<lparr>total_downloaded := 0, total_skipped := sk\<rparr>)"
    if "sizes_kept c" "download_datalog c sessions output_dir now1 days_back1 fs0 = Inr st1"
      "cutoff_of now1 days_back1 = Inr cutoff1" "cutoff_of now2 days_back2 = Inr cutoff2"
      "\<forall>s \<in> set sessions. before_cutoff cutoff1 s \<longleftrightarrow> before_cutoff cutoff2 s"
    using download_datalog_again [OF that(1) that(3) that(4) that(5) that(2)] .
  show ?thesis
  proof (intro conjI impI)
    show "fetch_edf c remote_edf local_edf sz st = st\<lparr>total_skipped := total_skipped st + 1\<rparr>
      \<longleftrightarrow> same_size (fs st) local_edf sz"
      by (rule a)
  next
    assume "\<not> same_size (fs st) local_edf sz"
    then show "fs (fetch_edf c remote_edf local_edf sz st)
              = snd (download_file c (fs st) remote_edf local_edf)"
      by (rule b)
  next
    assume h: "sizes_kept c
        \<and> download_datalog c sessions output_dir now1 days_back1 fs0 = Inr st1
        \<and> cutoff_of now1 days_back1 = Inr cutoff1
        \<and> cutoff_of now2 days_back2 = Inr cutoff2"
      and drop: "\<forall>s \<in> set sessions. before_cutoff cutoff1 s \<longrightarrow> before_cutoff cutoff2 s"
    from h drop show "\<exists>st2. download_datalog c sessions output_dir now2 days_back2 (fs st1) = Inr st2
                    \<and> total_downloaded st2 = 0 \<and> fs st2 = fs st1"
      by (intro c1) simp_all
  next
    assume h: "sizes_kept c
        \<and> download_datalog c sessions output_dir now1 days_back1 fs0 = Inr st1
        \<and> cutoff_of now1 days_back1 = Inr cutoff1
        \<and> cutoff_of now2 days_back2 = Inr cutoff2"
      and same: "\<forall>s \<in> set sessions. before_cutoff cutoff1 s \<longleftrightarrow> before_cutoff cutoff2 s"
    from h same show "\<exists>sk. total_downloaded st1 + total_skipped st1 \<le> sk
                    \<and> (can_fetch c \<longrightarrow> sk = total_downloaded st1 + total_skipped st1)
                    \<and> download_datalog c sessions output_dir now2 days_back2 (fs st1)
                        = Inr (st1\<lparr>total_downloaded := 0, total_skipped := sk\<rparr>)"
      by (intro c2) simp_all
  qed
qed

theorem fetch_skipped_iff_same_size_witness:
  "sizes_kept full_body_card \<and> can_fetch full_body_card
   \<and> cutoff_of example_now (Some 7) = Inr (Some ''20240105'')
   \<and> cutoff_of later_now (Some 7) = Inr (Some ''20240113'')
   \<and> \<not> before_cutoff (Some ''20240105'') example_session
   \<and> before_cutoff (Some ''20240113'') example_session
   \<and> \<not> isl (first_run full_body_card)
   \<and> total_downloaded (projr (first_run full_body_card)) = 1
   \<and> second_run full_body_card
       = Inr ((projr (first_run full_body_card))\<lparr>total_downloaded := 0, total_skipped := 1\<rparr>)
   \<and> \<not> isl (later_run full_body_card)
   \<and> total_downloaded (projr (later_run full_body_card)) = 0
   \<and> fs (projr (later_run full_body_card)) = fs (projr (first_run full_body_card))
   \<and> sizes_kept refusing_card
   \<and> \<not> isl (first_run refusing_card)
   \<and> \<not> isl (second_run refusing_card)
   \<and> total_downloaded (projr (second_run refusing_card)) = 0
   \<and> fs (projr (second_run refusing_card)) = fs (projr (first_run refusing_card))
   \<and> \<not> same_size Map.empty ''out/a.edf'' 100
   \<and> fs (fetch_edf full_body_card ''a.edf'' ''out/a.edf'' 100 example_state)
       = snd (download_file full_body_card Map.empty ''a.edf'' ''out/a.edf'')"
proof -
  note cut = example_cutoffs
  obtain st1 where r1: "first_run full_body_card = Inr st1"
    and d: "total_downloaded st1 = 1" and s: "total_skipped st1 = 0"
    using full_body_runs by (cases "first_run full_body_card") simp_all
  have two: "\<exists>sk. total_downloaded st1 + total_skipped st1 \<le> sk
      \<and> (can_fetch full_body_card \<longrightarrow> sk = total_downloaded st1 + total_skipped st1)
      \<and> download_datalog full_body_card [example_session] ''out'' example_now (Some 7) (fs st1)
          = Inr (st1\<lparr>total_downloaded := 0, total_skipped := sk\<rparr>)"
    using fetch_skipped_iff_same_size [where c = full_body_card and sessions = "[example_session]"
        and output_dir = "''out''" and ?now1.0 = example_now and ?days_back1.0 = "Some 7"
        and ?fs0.0 = Map.empty and ?st1.0 = st1 and ?cutoff1.0 = "Some ''20240105''"
        and ?now2.0 = example_now and ?days_back2.0 = "Some 7"
        and ?cutoff2.0 = "Some ''20240105''"]
      full_body_card_kept(1) r1 cut(1)
    by (simp add: first_run_def)
  have second: "second_run full_body_card = Inr (st1\<lparr>total_downloaded := 0, total_skipped := 1\<rparr>)"
    using two full_body_card_kept(2) d s r1 by (auto simp: second_run_def)
  have "\<exists>st2. download_datalog full_body_card [example_session] ''out'' later_now (Some 7) (fs st1)
          = Inr st2 \<and> total_downloaded st2 = 0 \<and> fs st2 = fs st1"
    using fetch_skipped_iff_same_size [where c = full_body_card and sessions = "[example_session]"
        and output_dir = "''out''" and ?now1.0 = example_now and ?days_back1.0 = "Some 7"
        and ?fs0.0 = Map.empty and ?st1.0 = st1 and ?cutoff1.0 = "Some ''20240105''"
        and ?now2.0 = later_now and ?days_back2.0 = "Some 7"
        and ?cutoff2.0 = "Some ''20240113''"]
      full_body_card_kept(1) r1 cut
    by (simp add: first_run_def)
  then obtain st2 where later: "later_run full_body_card = Inr st2"
    and d2: "total_downloaded st2 = 0" and f2: "fs st2 = fs st1"
    using r1 by (auto simp: later_run_def)
  obtain rt1 where q1: "first_run refusing_card = Inr rt1"
    using refusing_runs by (cases "first_run refusing_card") simp_all
  have "\<exists>st2. download_datalog refusing_card [example_session] ''out'' example_now (Some 7) (fs rt1)
          = Inr st2 \<and> total_downloaded st2 = 0 \<and> fs st2 = fs rt1"
    using fetch_skipped_iff_same_size [where c = refusing_card and sessions = "[example_session]"
        and output_dir = "''out''" and ?now1.0 = example_now and ?days_back1.0 = "Some 7"
        and ?fs0.0 = Map.empty and ?st1.0 = rt1 and ?cutoff1.0 = "Some ''20240105''"
        and ?now2.0 = example_now and ?days_back2.0 = "Some 7"
        and ?cutoff2.0 = "Some ''20240105''"]
      refusing_card_kept q1 cut(1)
    by (simp add: first_run_def)
  then obtain rt2 where q2: "second_run refusing_card = Inr rt2"
    and e2: "total_downloaded rt2 = 0" and g2: "fs rt2 = fs rt1"
    using q1 by (auto simp: second_run_def)
  have e: "\<not> same_size (fs example_state) ''out/a.edf'' 100"
    by (simp add: same_size_def example_state_def)
  have edf: "fs (fetch_edf full_body_card ''a.edf'' ''out/a.edf'' 100 example_state)
       = snd (download_file full_body_card (fs example_state) ''a.edf'' ''out/a.edf'')"
    using fetch_skipped_iff_same_size [where c = full_body_card and remote_edf = "''a.edf''"
        and local_edf = "''out/a.edf''" and sz = 100 and st = example_state]
      e by blast
  show ?thesis
    using full_body_card_kept refusing_card_kept cut r1 d second later d2 f2 q1 q2 e2 g2 e edf
    by (simp add: example_state_def)
qed

text \<open>
  Claim C8 as first stated fails on two devices. One serves a body shorter than the probed
  size, the case of the size-mismatch warning: the first run stores 90 bytes for a file
  probed at 100, and the second run, on that storage and the same device, downloads the
  file again and skips nothing. The other fails every GET: the second run downloads
  nothing, and the file its probe confirms is not skipped either.
\<close>

theorem second_run_downloads_again_counterexample:
  "is_real_file short_body_card ''DATALOG/20240110/20240111_100000_BRP.edf'' = Inr (True, 100)
   \<and> \<not> isl (first_run short_body_card)
   \<and> total_downloaded (projr (first_run short_body_card)) = 1
   \<and> map_option length
       (fs (projr (first_run short_body_card)) ''out/DATALOG/20240110/20240111_100000_BRP.edf'')
       = Some 90
   \<and> \<not> isl (second_run short_body_card)
   \<and> total_downloaded (projr (second_run short_body_card)) = 1
   \<and> total_downloaded (projr (second_run short_body_card)) \<noteq> 0
   \<and> total_skipped (projr (second_run short_body_card)) = 0
   \<and> is_real_file refusing_card ''DATALOG/20240110/20240111_100000_BRP.edf'' = Inr (True, 100)
   \<and> \<not> isl (first_run refusing_card)
   \<and> \<not> isl (second_run refusing_card)
   \<and> total_downloaded (projr (second_run refusing_card)) = 0
   \<and> total_skipped (projr (second_run refusing_card)) = 0"
proof -
  obtain st1 where r1: "first_run short_body_card = Inr st1"
    and d: "total_downloaded st1 = 1"
    and l: "map_option length (fs st1 ''out/DATALOG/20240110/20240111_100000_BRP.edf'') = Some 90"
    and two: "case download_datalog short_body_card [example_session] ''out'' example_now (Some 7)
                 (fs st1) of
             Inl e \<Rightarrow> False
           | Inr st2 \<Rightarrow> total_downloaded st2 = 1 \<and> total_skipped st2 = 0"
    using short_body_runs by (cases "first_run short_body_card") simp_all
  from two obtain st2 where r2: "second_run short_body_card = Inr st2"
    and d2: "total_downloaded st2 = 1" and s2: "total_skipped st2 = 0"
    unfolding second_run_def r1
    by (cases "download_datalog short_body_card [example_session] ''out'' example_now (Some 7)
                 (fs st1)")
      simp_all
  obtain rt1 where q1: "first_run refusing_card = Inr rt1"
    and three: "case download_datalog refusing_card [example_session] ''out'' example_now (Some 7)
                 (fs rt1) of
             Inl e \<Rightarrow> False
           | Inr st2 \<Rightarrow> total_downloaded st2 = 0 \<and> total_skipped st2 = 0"
    using refusing_runs by (cases "first_run refusing_card") simp_all
  from three obtain rt2 where q2: "second_run refusing_card = Inr rt2"
    and e2: "total_downloaded rt2 = 0" and t2: "total_skipped rt2 = 0"
    unfolding second_run_def q1
    by (cases "download_datalog refusing_card [example_session] ''out'' example_now (Some 7)
                 (fs rt1)")
      simp_all
  show ?thesis
    using example_heads r1 d l r2 d2 s2 q1 q2 e2 t2 by simp
qed

end
